theory Spec2Isabelle
  imports Complex_Main "HOL-Library.Multiset" "HOL-Library.Product_Lexorder"
begin

section \<open>Library values: exceptions, \<open>size_t\<close> positions, doubles\<close>

text \<open>
  The program is C++ (\<open>wormtype.cpp\<close>). Exceptions of the standard library are values of
  \<open>exn\<close>; a computation that may throw returns \<open>exn + 'a\<close>, with \<open>Inl\<close> for the throw.
\<close>

datatype exn = invalid_argument | out_of_range

definition bindE :: "exn + 'a \<Rightarrow> ('a \<Rightarrow> exn + 'b) \<Rightarrow> exn + 'b" where
  "bindE m f = (case m of Inl e \<Rightarrow> Inl e | Inr v \<Rightarrow> f v)"

text \<open>\<open>try { m } catch (const std::exception&) { h }\<close>: every exception of \<open>exn\<close> is caught.\<close>

definition try_catch :: "exn + 'a \<Rightarrow> 'a \<Rightarrow> 'a" where
  "try_catch m h = (case m of Inl e \<Rightarrow> h | Inr v \<Rightarrow> v)"

text \<open>
  \<open>size_t\<close> is 64 bits wide: positions are naturals below \<open>2 ^ 64\<close>, \<open>std::string::npos\<close> is
  the largest of them, and additions and subtractions wrap around.
\<close>

definition size_modulus :: nat where
  "size_modulus = 18446744073709551616"

definition npos :: nat where
  "npos = 18446744073709551615"

definition sz_add :: "nat \<Rightarrow> nat \<Rightarrow> nat" where
  "sz_add a b = (a + b) mod size_modulus"

definition sz_sub :: "nat \<Rightarrow> nat \<Rightarrow> nat" where
  "sz_sub a b = (a + size_modulus - b mod size_modulus) mod size_modulus"

text \<open>\<open>s.find(c, pos)\<close>: the first index at or after \<open>pos\<close> that holds \<open>c\<close>, or \<open>npos\<close>.\<close>

definition find_char :: "string \<Rightarrow> char \<Rightarrow> nat \<Rightarrow> nat" where
  "find_char s c pos =
     (if c \<in> set (drop pos s) then pos + length (takeWhile (\<lambda>x. x \<noteq> c) (drop pos s))
      else npos)"

text \<open>\<open>s.substr(pos, n)\<close> throws when \<open>pos\<close> is beyond the end; \<open>n\<close> is cut at the end.\<close>

definition substr :: "string \<Rightarrow> nat \<Rightarrow> nat \<Rightarrow> exn + string" where
  "substr s pos n = (if pos > length s then Inl out_of_range else Inr (take n (drop pos s)))"

text \<open>
  A \<open>double\<close> is the number it denotes, or one of the special values of IEEE 754; the rounding
  of results to 53 bits and the sign of zero are left out. Division by zero does not trap: it
  gives an infinity, or \<open>NaN\<close> for \<open>0 / 0\<close>. Every comparison with \<open>NaN\<close> is false, except \<open>!=\<close>.
\<close>

datatype double = Fin rat | PInf | NInf | NaN

fun ddiv :: "double \<Rightarrow> double \<Rightarrow> double" where
  "ddiv NaN _ = NaN"
| "ddiv _ NaN = NaN"
| "ddiv (Fin a) (Fin b) =
     (if b \<noteq> 0 then Fin (a / b) else if a = 0 then NaN else if a > 0 then PInf else NInf)"
| "ddiv (Fin a) PInf = Fin 0"
| "ddiv (Fin a) NInf = Fin 0"
| "ddiv PInf (Fin b) = (if b \<ge> 0 then PInf else NInf)"
| "ddiv NInf (Fin b) = (if b \<ge> 0 then NInf else PInf)"
| "ddiv PInf _ = NaN"
| "ddiv NInf _ = NaN"

fun dmul :: "double \<Rightarrow> double \<Rightarrow> double" where
  "dmul NaN _ = NaN"
| "dmul _ NaN = NaN"
| "dmul (Fin a) (Fin b) = Fin (a * b)"
| "dmul (Fin a) PInf = (if a = 0 then NaN else if a > 0 then PInf else NInf)"
| "dmul (Fin a) NInf = (if a = 0 then NaN else if a > 0 then NInf else PInf)"
| "dmul PInf (Fin b) = (if b = 0 then NaN else if b > 0 then PInf else NInf)"
| "dmul NInf (Fin b) = (if b = 0 then NaN else if b > 0 then NInf else PInf)"
| "dmul PInf PInf = PInf"
| "dmul PInf NInf = NInf"
| "dmul NInf PInf = NInf"
| "dmul NInf NInf = PInf"

fun dlt :: "double \<Rightarrow> double \<Rightarrow> bool" where
  "dlt NaN _ = False"
| "dlt _ NaN = False"
| "dlt (Fin a) (Fin b) = (a < b)"
| "dlt (Fin a) PInf = True"
| "dlt (Fin a) NInf = False"
| "dlt PInf _ = False"
| "dlt NInf NInf = False"
| "dlt NInf _ = True"

definition dgt :: "double \<Rightarrow> double \<Rightarrow> bool" where
  "dgt a b = dlt b a"

fun deq :: "double \<Rightarrow> double \<Rightarrow> bool" where
  "deq NaN _ = False"
| "deq _ NaN = False"
| "deq a b = (a = b)"

definition dne :: "double \<Rightarrow> double \<Rightarrow> bool" where
  "dne a b = (\<not> deq a b)"

definition dge :: "double \<Rightarrow> double \<Rightarrow> bool" where
  "dge a b = (dgt a b \<or> deq a b)"

text \<open>\<open>difftime(a, b)\<close> on whole-second \<open>time_t\<close> values.\<close>

definition difftime :: "int \<Rightarrow> int \<Rightarrow> double" where
  "difftime a b = Fin (of_int (a - b))"

section \<open>Text generation (\<open>main\<close>, lines 1542-1648 and 1738-1778)\<close>

definition words :: "string list" where
  "words =
    [''the'', ''quick'', ''brown'', ''fox'', ''jumps'', ''over'', ''lazy'', ''dog'',
     ''hello'', ''world'', ''typing'', ''test'', ''program'', ''simple'', ''fast'',
     ''computer'', ''keyboard'', ''screen'', ''mouse'', ''software'', ''hardware'',
     ''internet'', ''website'', ''email'', ''password'', ''username'', ''login'',
     ''download'', ''upload'', ''file'', ''folder'', ''document'', ''window'',
     ''button'', ''click'', ''double'', ''right'', ''left'', ''center'', ''top'',
     ''bottom'', ''middle'', ''side'', ''front'', ''back'', ''forward'', ''backward'',
     ''up'', ''down'', ''north'', ''south'', ''east'', ''west'', ''morning'',
     ''afternoon'', ''evening'', ''night'', ''today'', ''tomorrow'', ''yesterday'',
     ''week'', ''month'', ''year'', ''time'', ''clock'', ''watch'', ''minute'',
     ''second'', ''hour'', ''schedule'', ''appointment'', ''meeting'', ''conference'',
     ''presentation'', ''project'', ''task'', ''work'', ''job'', ''career'',
     ''business'', ''company'', ''office'', ''desk'', ''chair'', ''table'', ''phone'',
     ''mobile'', ''tablet'', ''laptop'', ''desktop'', ''server'', ''network'',
     ''wireless'', ''bluetooth'', ''cable'', ''connection'', ''signal'', ''data'',
     ''information'', ''knowledge'', ''learning'', ''education'', ''school'',
     ''university'', ''student'', ''teacher'', ''book'', ''page'', ''chapter'',
     ''paragraph'', ''sentence'', ''word'', ''letter'', ''number'', ''count'',
     ''calculate'', ''mathematics'', ''science'', ''technology'', ''innovation'',
     ''development'', ''progress'', ''improvement'', ''solution'', ''problem'',
     ''challenge'', ''opportunity'']"

definition punctuationWords :: "string list" where
  "punctuationWords =
    [''hello,'', ''world!'', ''it's'', ''don't'', ''can't'', ''won't'', ''we're'',
     ''they're'', ''you'll'', ''I'll'', ''she'll'', ''he'll'', ''we'll'', ''they'll'',
     ''isn't'', ''aren't'', ''wasn't'', ''weren't'', ''hasn't'', ''haven't'',
     ''doesn't'', ''didn't'', ''shouldn't'', ''wouldn't'', ''couldn't'', ''mustn't'',
     ''needn't'', ''shan't'', ''hello.'', ''goodbye!'', ''really?'', ''amazing!'',
     ''yes,'', ''no,'', ''wait...'', ''stop!'', ''go!'', ''help!'', ''wow!'', ''oh!'']"

definition numberWords :: "string list" where
  "numberWords =
    [''123'', ''456'', ''789'', ''101'', ''202'', ''303'', ''404'', ''505'', ''2024'',
     ''2025'', ''1995'', ''2000'', ''42'', ''99'', ''100'', ''1000'', ''test1'',
     ''test2'', ''file1'', ''file2'', ''user1'', ''user2'', ''admin123'', ''pass123'',
     ''v1.0'', ''v2.0'', ''v3.1'', ''v4.2'', ''room101'', ''room202'', ''apt3b'',
     ''unit4a'', ''level1'', ''level2'', ''step1'', ''step2'', ''page1'', ''page2'',
     ''item1'', ''item2'']"

definition pureNumbers :: "string list" where
  "pureNumbers =
     [''0'', ''1'', ''2'', ''3'']
     @ [''4'', ''5'', ''6'', ''7'']
     @ [''8'', ''9'', ''10'', ''11'']
     @ [''12'', ''13'', ''14'', ''15'']
     @ [''16'', ''17'', ''18'', ''19'']
     @ [''20'', ''25'', ''30'', ''42'']
     @ [''50'', ''75'', ''99'', ''100'']
     @ [''123'', ''456'', ''789'', ''1000'']
     @ [''2024'', ''2025'', ''3000'', ''5000'']"

definition combinedWords :: "bool \<Rightarrow> bool \<Rightarrow> string list" where
  "combinedWords includePunctuation includeNumbers =
     words @ (if includePunctuation then punctuationWords else [])
           @ (if includeNumbers then numberWords else [])"

text \<open>
  The loop \<open>for (int i = 0; i < wordCount; i++)\<close>; \<open>rnd i\<close> is what the \<open>i\<close>-th call of
  \<open>rand()\<close> returns.
\<close>

function gen_loop :: "string list \<Rightarrow> (nat \<Rightarrow> nat) \<Rightarrow> nat \<Rightarrow> nat \<Rightarrow> string \<Rightarrow> string" where
  "gen_loop pool rnd n i tgt =
     (if i < n
      then gen_loop pool rnd n (i + 1)
             ((if i > 0 then tgt @ '' '' else tgt) @ pool ! (rnd i mod length pool))
      else tgt)"
  by pat_completeness auto
termination
  by (relation "measure (\<lambda>(pool, rnd, n, i, tgt). n - i)") auto

declare gen_loop.simps [simp del]

definition generate_target :: "int \<Rightarrow> bool \<Rightarrow> bool \<Rightarrow> (nat \<Rightarrow> nat) \<Rightarrow> string" where
  "generate_target wc includePunctuation includeNumbers rnd =
     (if includeNumbers \<and> \<not> includePunctuation
      then gen_loop pureNumbers rnd (nat wc) 0 []
      else gen_loop (combinedWords includePunctuation includeNumbers) rnd (nat wc) 0 [])"

text \<open>The words of the specification: a pool chosen by the flags, tokens joined by one space.\<close>

definition selected_pool :: "bool \<Rightarrow> bool \<Rightarrow> string list" where
  "selected_pool includePunctuation includeNumbers =
     (if includeNumbers \<and> \<not> includePunctuation then pureNumbers
      else combinedWords includePunctuation includeNumbers)"

fun join_spaces :: "string list \<Rightarrow> string" where
  "join_spaces [] = []"
| "join_spaces [t] = t"
| "join_spaces (t # ts) = t @ '' '' @ join_spaces ts"

definition drawn_tokens :: "string list \<Rightarrow> (nat \<Rightarrow> nat) \<Rightarrow> nat \<Rightarrow> string list" where
  "drawn_tokens pool rnd n = map (\<lambda>i. pool ! (rnd i mod length pool)) [0..<n]"

section \<open>The typing session (\<open>main\<close>, lines 1650-1728)\<close>

text \<open>
  The local variables of the typing loop. \<open>start_time\<close> is a \<open>time_t\<close> in whole seconds;
  \<open>jumped_from_pos\<close> is a \<open>size_t\<close>, \<open>npos\<close> when no jump is recorded.
\<close>

record session =
  target :: string
  typed :: string
  start_time :: int
  started :: bool
  jumped_from_pos :: nat
  has_jumped :: bool

definition new_session :: "string \<Rightarrow> session" where
  "new_session tgt =
     \<lparr>target = tgt, typed = [], start_time = 0, started = False,
      jumped_from_pos = npos, has_jumped = False\<rparr>"

text \<open>\<open>KEY_BACKSPACE\<close> is the key code of curses, octal 0407.\<close>

definition KEY_BACKSPACE :: int where
  "KEY_BACKSPACE = 263"

text \<open>\<open>while (space_pos < target.length() && target[space_pos] == ' ') space_pos++;\<close>\<close>

function skip_spaces :: "string \<Rightarrow> nat \<Rightarrow> nat" where
  "skip_spaces tgt space_pos =
     (if space_pos < length tgt \<and> tgt ! space_pos = CHR '' ''
      then skip_spaces tgt (space_pos + 1) else space_pos)"
  by pat_completeness auto
termination
  by (relation "measure (\<lambda>(tgt, space_pos). length tgt - space_pos)") auto

declare skip_spaces.simps [simp del]

text \<open>The fill loop: spaces are copied, every other skipped position gets an underscore.\<close>

function fill_skipped :: "string \<Rightarrow> nat \<Rightarrow> string \<Rightarrow> string" where
  "fill_skipped tgt next_word_pos ty =
     (if length ty < next_word_pos \<and> length ty < length tgt
      then fill_skipped tgt next_word_pos
             (ty @ [if tgt ! length ty = CHR '' '' then CHR '' '' else CHR ''_''])
      else ty)"
  by pat_completeness auto
termination
  by (relation "measure (\<lambda>(tgt, next_word_pos, ty). next_word_pos - length ty)") auto

declare fill_skipped.simps [simp del]

definition next_word_pos_of :: "string \<Rightarrow> nat \<Rightarrow> nat" where
  "next_word_pos_of tgt from =
     (let space_pos = find_char tgt (CHR '' '') from
      in if space_pos \<noteq> npos then skip_spaces tgt space_pos else length tgt)"

definition start_timer :: "int \<Rightarrow> session \<Rightarrow> session" where
  "start_timer now s = (if \<not> started s then s\<lparr>start_time := now, started := True\<rparr> else s)"

text \<open>
  One pass through the key dispatch of the loop body: \<open>ch\<close> is what \<open>getch()\<close> returned,
  \<open>now\<close> what \<open>time(nullptr)\<close> returns, \<open>wc\<close>, \<open>punct\<close>, \<open>nums\<close> the options of the
  session and \<open>rnd\<close> the values \<open>rand()\<close> returns, should the text be generated again. The
  branches for \<open>'l'\<close>, \<open>'L'\<close> and \<open>'W'\<close> come after the branch for the printable characters
  33 to 126, which takes these keys first; they change none of the session's variables.
\<close>

definition handle_key ::
  "int \<Rightarrow> bool \<Rightarrow> bool \<Rightarrow> (nat \<Rightarrow> nat) \<Rightarrow> int \<Rightarrow> int \<Rightarrow> session \<Rightarrow> session" where
  "handle_key wc punct nums rnd now ch s =
     (if ch = KEY_BACKSPACE \<or> ch = 127 \<or> ch = 8 then
        (if has_jumped s \<and> length (typed s) > jumped_from_pos s
         then s\<lparr>typed := take (jumped_from_pos s) (typed s),
                has_jumped := False, jumped_from_pos := npos\<rparr>
         else if typed s \<noteq> []
         then s\<lparr>typed := butlast (typed s), has_jumped := False, jumped_from_pos := npos\<rparr>
         else s)
      else if ch = 32 then
        (if length (typed s) < length (target s) then
           (let s1 = start_timer now s in
            if length (typed s1) < length (target s1)
               \<and> target s1 ! length (typed s1) \<noteq> CHR '' ''
            then s1\<lparr>jumped_from_pos := length (typed s1),
                    typed := fill_skipped (target s1)
                               (next_word_pos_of (target s1) (length (typed s1))) (typed s1),
                    has_jumped := True\<rparr>
            else s1\<lparr>typed := typed s1 @ '' '', has_jumped := False, jumped_from_pos := npos\<rparr>)
         else s)
      else if 33 \<le> ch \<and> ch \<le> 126 then
        (if length (typed s) < length (target s)
         then (start_timer now s)\<lparr>typed := typed s @ [char_of ch],
                 has_jumped := False, jumped_from_pos := npos\<rparr>
         else s)
      else if ch = 10 \<or> ch = 13 then
        s\<lparr>typed := [], started := False,
          target := generate_target wc punct nums rnd,
          has_jumped := False, jumped_from_pos := npos\<rparr>
      else s)"

text \<open>
  The states the loop can be in: the session starts on a text generated for a word count the
  menu returned (5, 10, 25, 50, or a custom count from 1 to 1000) with nothing typed, and
  every key other than ESC (27) is dispatched. The loop is left when the text is
  complete; letting further keys arrive then only adds states.
\<close>

inductive reachable :: "int \<Rightarrow> bool \<Rightarrow> bool \<Rightarrow> session \<Rightarrow> bool"
  for wc :: int and punct :: bool and nums :: bool where
  start: "1 \<le> wc \<Longrightarrow> wc \<le> 1000
          \<Longrightarrow> reachable wc punct nums (new_session (generate_target wc punct nums rnd))"
| key: "reachable wc punct nums s \<Longrightarrow> ch \<noteq> 27
        \<Longrightarrow> reachable wc punct nums (handle_key wc punct nums rnd now ch s)"

text \<open>
  The specification's index of the next word: the first position after \<open>p\<close> that holds a
  character other than a space and follows a space, or the length of the text.
\<close>

definition word_starts_at :: "string \<Rightarrow> nat \<Rightarrow> bool" where
  "word_starts_at tgt j =
     (0 < j \<and> j < length tgt \<and> tgt ! j \<noteq> CHR '' '' \<and> tgt ! (j - 1) = CHR '' '')"

definition next_word_index :: "string \<Rightarrow> nat \<Rightarrow> nat" where
  "next_word_index tgt p =
     (case filter (word_starts_at tgt) [p + 1 ..< length tgt] of
        [] \<Rightarrow> length tgt
      | j # _ \<Rightarrow> j)"

section \<open>Metrics (\<open>main\<close>, lines 1951-2001)\<close>

text \<open>The counting loop over \<open>i < typed.length() && i < target.length()\<close>.\<close>

definition count_correct :: "string \<Rightarrow> string \<Rightarrow> nat" where
  "count_correct ty tgt = length (filter (\<lambda>(a, b). a = b) (zip ty tgt))"

definition raw_wpm_of :: "nat \<Rightarrow> double \<Rightarrow> double" where
  "raw_wpm_of correct elapsed = ddiv (ddiv (Fin (of_nat correct)) (Fin 5)) (ddiv elapsed (Fin 60))"

definition accuracy_of :: "nat \<Rightarrow> nat \<Rightarrow> double" where
  "accuracy_of correct len = ddiv (dmul (Fin (of_nat correct)) (Fin 100)) (Fin (of_nat len))"

definition penalised :: "double \<Rightarrow> double \<Rightarrow> double" where
  "penalised raw acc = dmul raw (if dlt acc (Fin 50) then ddiv acc (Fin 50) else Fin 1)"

text \<open>
  The live statistics line: \<open>None\<close> when nothing is displayed, else WPM, accuracy and the
  elapsed time.
\<close>

definition live_stats :: "int \<Rightarrow> session \<Rightarrow> (double \<times> double \<times> double) option" where
  "live_stats now s =
     (if started s \<and> length (typed s) > 0 then
        (let elapsed = difftime now (start_time s) in
         if dgt elapsed (Fin 0) then
           (let correct = count_correct (typed s) (target s);
                acc = accuracy_of correct (length (typed s))
            in Some (penalised (raw_wpm_of correct elapsed) acc, acc, elapsed))
         else None)
      else None)"

section \<open>Score records and the leaderboard (lines 45-111 and 951-1057)\<close>

record PlayerScore =
  name :: string
  wpm :: double
  accuracy :: double
  time :: double
  date :: string
  wordCount :: int
  hasPunctuation :: bool
  hasNumbers :: bool

text \<open>
  The final statistics, computed in the loop body when \<open>typed.length() == target.length()\<close>,
  and the record built from them; \<open>today\<close> is the text \<open>strftime\<close> gives the constructor.
\<close>

definition final_score ::
  "string \<Rightarrow> string \<Rightarrow> int \<Rightarrow> bool \<Rightarrow> bool \<Rightarrow> int \<Rightarrow> session \<Rightarrow> PlayerScore" where
  "final_score playerName today wc punct nums now s =
     (let elapsed = difftime now (start_time s);
          correct = count_correct (typed s) (target s);
          final_accuracy = accuracy_of correct (length (typed s));
          final_wpm = penalised (raw_wpm_of correct elapsed) final_accuracy
      in \<lparr>name = playerName, wpm = final_wpm, accuracy = final_accuracy, time = elapsed,
          date = today, wordCount = wc, hasPunctuation = punct, hasNumbers = nums\<rparr>)"

definition completion ::
  "string \<Rightarrow> string \<Rightarrow> int \<Rightarrow> bool \<Rightarrow> bool \<Rightarrow> int \<Rightarrow> session \<Rightarrow> PlayerScore option" where
  "completion playerName today wc punct nums now s =
     (if length (typed s) = length (target s)
      then Some (final_score playerName today wc punct nums now s) else None)"

definition compareScores :: "PlayerScore \<Rightarrow> PlayerScore \<Rightarrow> bool" where
  "compareScores a b =
     (if dne (wpm a) (wpm b) then dgt (wpm a) (wpm b) else dgt (accuracy a) (accuracy b))"

text \<open>
  \<open>std::sort(first, last, comp)\<close> leaves a permutation of the range in which no element
  comes before one that \<open>comp\<close> puts ahead of it; the order of elements that \<open>comp\<close> does
  not separate is not fixed by the library. Insertion is one such sort; the theorems below
  use only the two properties.
\<close>

fun insert_sorted :: "('a \<Rightarrow> 'a \<Rightarrow> bool) \<Rightarrow> 'a \<Rightarrow> 'a list \<Rightarrow> 'a list" where
  "insert_sorted cmp x [] = [x]"
| "insert_sorted cmp x (y # ys) =
     (if cmp x y then x # y # ys else y # insert_sorted cmp x ys)"

definition std_sort :: "('a \<Rightarrow> 'a \<Rightarrow> bool) \<Rightarrow> 'a list \<Rightarrow> 'a list" where
  "std_sort cmp xs = foldl (\<lambda>acc x. insert_sorted cmp x acc) [] xs"

definition addToLeaderboard :: "PlayerScore list \<Rightarrow> PlayerScore \<Rightarrow> PlayerScore list" where
  "addToLeaderboard leaderboard newScore =
     (let sorted_lb = std_sort compareScores (leaderboard @ [newScore])
      in if length sorted_lb > 10 then take 10 sorted_lb else sorted_lb)"

text \<open>The order the specification asks of two records, one before the other.\<close>

definition ranked_before :: "PlayerScore \<Rightarrow> PlayerScore \<Rightarrow> bool" where
  "ranked_before a b =
     (dgt (wpm a) (wpm b) \<or> (deq (wpm a) (wpm b) \<and> dge (accuracy a) (accuracy b)))"


subsection \<open>Reading and writing the file\<close>

text \<open>\<open>::toupper\<close> in the C locale, applied to every character.\<close>

definition toupper :: "char \<Rightarrow> char" where
  "toupper c =
     (if 97 \<le> (of_char c :: nat) \<and> (of_char c :: nat) \<le> 122
      then char_of ((of_char c :: nat) - 32) else c)"

definition toUpperCase :: "string \<Rightarrow> string" where
  "toUpperCase str = map toupper str"

text \<open>
  \<open>std::getline\<close> in a loop: the text up to each newline, and a last line without one when
  it is not empty.
\<close>

fun getlines_acc :: "string \<Rightarrow> string \<Rightarrow> string list" where
  "getlines_acc acc [] = (if acc = [] then [] else [rev acc])"
| "getlines_acc acc (c # cs) =
     (if c = CHR 0x0A then rev acc # getlines_acc [] cs else getlines_acc (c # acc) cs)"

definition getlines :: "string \<Rightarrow> string list" where
  "getlines txt = getlines_acc [] txt"

text \<open>
  One line of \<open>leaderboard.txt\<close>. \<open>sd\<close> and \<open>si\<close> stand for \<open>std::stod\<close> and \<open>std::stoi\<close> of the
  standard library, which throw when they cannot convert. The result is \<open>None\<close> when the line
  is passed over, a record when one is appended, and \<open>Inl\<close> when an exception leaves the
  function; only the two \<open>try\<close> blocks catch. \<open>parse_fields\<close> is the body of the \<open>if\<close> that
  checks the first three separators, \<open>load_line\<close> the body of the \<open>while\<close> loop.
\<close>

definition parse_fields ::
  "(string \<Rightarrow> exn + double) \<Rightarrow> (string \<Rightarrow> exn + int) \<Rightarrow> string
     \<Rightarrow> nat \<Rightarrow> nat \<Rightarrow> nat \<Rightarrow> nat \<Rightarrow> nat \<Rightarrow> nat \<Rightarrow> nat \<Rightarrow> exn + PlayerScore option" where
  "parse_fields sd si line pos1 pos2 pos3 pos4 pos5 pos6 pos7 =
     bindE (substr line 0 pos1) (\<lambda>n.
     bindE (bindE (substr line (sz_add pos1 1) (sz_sub (sz_sub pos2 pos1) 1)) sd) (\<lambda>w.
     bindE (bindE (substr line (sz_add pos2 1) (sz_sub (sz_sub pos3 pos2) 1)) sd) (\<lambda>a.
     if pos4 \<noteq> npos then
       bindE (bindE (substr line (sz_add pos3 1) (sz_sub (sz_sub pos4 pos3) 1)) sd) (\<lambda>t.
       bindE
         (if pos7 \<noteq> npos then
            Inr (try_catch
              (bindE (substr line (sz_add pos4 1) (sz_sub (sz_sub pos5 pos4) 1)) (\<lambda>d.
               bindE (bindE (substr line (sz_add pos5 1) (sz_sub (sz_sub pos6 pos5) 1)) si)
                 (\<lambda>c.
               bindE (bindE (substr line (sz_add pos6 1) (sz_sub (sz_sub pos7 pos6) 1)) si)
                 (\<lambda>p.
               bindE (bindE (substr line (sz_add pos7 1) npos) si) (\<lambda>q.
               Inr (d, c, p = 1, q = 1))))))
              (''Unknown'', 15, False, False))
          else if pos5 \<noteq> npos then
            Inr (try_catch
              (bindE (substr line (sz_add pos4 1) (sz_sub (sz_sub pos5 pos4) 1)) (\<lambda>d.
               bindE (bindE (substr line (sz_add pos5 1) npos) si) (\<lambda>c.
               Inr (d, c, False, False))))
              (''Unknown'', 15, False, False))
          else
            bindE (substr line (sz_add pos4 1) npos) (\<lambda>d.
            Inr (if d = [] then ''Unknown'' else d, 15, False, False)))
         (\<lambda>(d, c, p, q).
          Inr (Some \<lparr>name = toUpperCase n, wpm = w, accuracy = a, time = t, date = d,
                    wordCount = c, hasPunctuation = p, hasNumbers = q\<rparr>)))
     else
       bindE (bindE (substr line (sz_add pos3 1) npos) sd) (\<lambda>t.
       Inr (Some \<lparr>name = toUpperCase n, wpm = w, accuracy = a, time = t,
                 date = ''Unknown'', wordCount = 15, hasPunctuation = False,
                 hasNumbers = False\<rparr>)))))"

definition load_line ::
  "(string \<Rightarrow> exn + double) \<Rightarrow> (string \<Rightarrow> exn + int) \<Rightarrow> string \<Rightarrow> exn + PlayerScore option" where
  "load_line sd si line =
     (let pos1 = find_char line (CHR ''|'') 0;
          pos2 = find_char line (CHR ''|'') (sz_add pos1 1);
          pos3 = find_char line (CHR ''|'') (sz_add pos2 1);
          pos4 = find_char line (CHR ''|'') (sz_add pos3 1);
          pos5 = find_char line (CHR ''|'') (sz_add pos4 1);
          pos6 = find_char line (CHR ''|'') (sz_add pos5 1);
          pos7 = find_char line (CHR ''|'') (sz_add pos6 1)
      in if pos1 \<noteq> npos \<and> pos2 \<noteq> npos \<and> pos3 \<noteq> npos
         then parse_fields sd si line pos1 pos2 pos3 pos4 pos5 pos6 pos7
         else Inr None)"

fun load_lines ::
  "(string \<Rightarrow> exn + double) \<Rightarrow> (string \<Rightarrow> exn + int) \<Rightarrow> string list
     \<Rightarrow> exn + PlayerScore list" where
  "load_lines sd si [] = Inr []"
| "load_lines sd si (line # rest) =
     bindE (load_line sd si line) (\<lambda>r.
     bindE (load_lines sd si rest) (\<lambda>rs.
     Inr (case r of None \<Rightarrow> rs | Some x \<Rightarrow> x # rs)))"

text \<open>The file is \<open>None\<close> when it cannot be opened, else its text.\<close>

definition loadLeaderboard ::
  "(string \<Rightarrow> exn + double) \<Rightarrow> (string \<Rightarrow> exn + int) \<Rightarrow> string option
     \<Rightarrow> exn + PlayerScore list" where
  "loadLeaderboard sd si file =
     (case file of None \<Rightarrow> Inr [] | Some txt \<Rightarrow> load_lines sd si (getlines txt))"

text \<open>\<open>operator<<\<close> for \<open>int\<close>: decimal digits, a minus sign for negative values.\<close>

fun put_nat :: "nat \<Rightarrow> string" where
  "put_nat n =
     (if n < 10 then [char_of (48 + n)] else put_nat (n div 10) @ [char_of (48 + n mod 10)])"

declare put_nat.simps [simp del]

definition put_int :: "int \<Rightarrow> string" where
  "put_int i = (if i < 0 then CHR ''-'' # put_nat (nat (- i)) else put_nat (nat i))"

text \<open>
  The text \<open>saveLeaderboard\<close> writes to the opened file; \<open>pd\<close> stands for \<open>operator<<\<close> on a
  \<open>double\<close>, and \<open>std::endl\<close> writes a newline.
\<close>

definition score_line :: "(double \<Rightarrow> string) \<Rightarrow> PlayerScore \<Rightarrow> string" where
  "score_line pd r =
     name r @ ''|'' @ pd (wpm r) @ ''|'' @ pd (accuracy r) @ ''|'' @ pd (time r) @ ''|''
       @ date r @ ''|'' @ put_int (wordCount r) @ ''|''
       @ put_int (if hasPunctuation r then 1 else 0) @ ''|''
       @ put_int (if hasNumbers r then 1 else 0)"

definition saveLeaderboard :: "(double \<Rightarrow> string) \<Rightarrow> PlayerScore list \<Rightarrow> string" where
  "saveLeaderboard pd leaderboard = concat (map (\<lambda>r. score_line pd r @ [CHR 0x0A]) leaderboard)"

subsection \<open>The library's conversions on decimal text\<close>

text \<open>
  The loader and the writer above take the conversions of the standard library as parameters.
  The definitions of this subsection describe them on decimal text, for use at concrete
  inputs: \<open>std_stoi\<close> and \<open>std_stod\<close> skip leading white space, read an optional sign and the
  longest number that follows, ignore the rest, and throw \<open>invalid_argument\<close> when no digit
  is there and \<open>out_of_range\<close> when the value does not fit. Hexadecimal floating literals are
  not covered. \<open>std_put_double\<close> is the default output format, \<open>%g\<close> with six significant
  digits.
\<close>

definition isspace :: "char \<Rightarrow> bool" where
  "isspace c = (c = CHR '' '' \<or> (9 \<le> (of_char c :: nat) \<and> (of_char c :: nat) \<le> 13))"

definition isdigit :: "char \<Rightarrow> bool" where
  "isdigit c = (48 \<le> (of_char c :: nat) \<and> (of_char c :: nat) \<le> 57)"

definition digits_value :: "string \<Rightarrow> nat" where
  "digits_value ds = foldl (\<lambda>v c. 10 * v + ((of_char c :: nat) - 48)) 0 ds"

definition read_sign :: "string \<Rightarrow> bool \<times> string" where
  "read_sign s =
     (case s of
        c # cs \<Rightarrow> (if c = CHR ''-'' then (True, cs) else if c = CHR ''+'' then (False, cs)
                   else (False, s))
      | [] \<Rightarrow> (False, s))"

definition std_stoi :: "string \<Rightarrow> exn + int" where
  "std_stoi str =
     (let (neg, s) = read_sign (dropWhile isspace str);
          ds = takeWhile isdigit s;
          v = (if neg then - int (digits_value ds) else int (digits_value ds))
      in if ds = [] then Inl invalid_argument
         else if v < - 2147483648 \<or> v > 2147483647 then Inl out_of_range
         else Inr v)"

definition pow10 :: "int \<Rightarrow> rat" where
  "pow10 e = (if e \<ge> 0 then 10 ^ nat e else 1 / 10 ^ nat (- e))"

definition DBL_MAX :: rat where
  "DBL_MAX = (2 ^ 53 - 1) * 2 ^ 971"

definition DBL_MIN :: rat where
  "DBL_MIN = 1 / 2 ^ 1022"

definition starts_with_ci :: "string \<Rightarrow> string \<Rightarrow> bool" where
  "starts_with_ci w s = (map toupper (take (length w) s) = map toupper w)"

definition read_exponent :: "string \<Rightarrow> int" where
  "read_exponent s =
     (case s of
        c # cs \<Rightarrow>
          (if c = CHR ''e'' \<or> c = CHR ''E''
           then (let (neg, r) = read_sign cs; ds = takeWhile isdigit r
                 in if ds = [] then 0
                    else if neg then - int (digits_value ds) else int (digits_value ds))
           else 0)
      | [] \<Rightarrow> 0)"

definition std_stod :: "string \<Rightarrow> exn + double" where
  "std_stod str =
     (let (neg, s) = read_sign (dropWhile isspace str) in
      if starts_with_ci ''inf'' s then Inr (if neg then NInf else PInf)
      else if starts_with_ci ''nan'' s then Inr NaN
      else
       (let ip = takeWhile isdigit s;
            r1 = drop (length ip) s;
            fp = (case r1 of c # cs \<Rightarrow> (if c = CHR ''.'' then takeWhile isdigit cs else [])
                  | [] \<Rightarrow> []);
            r2 = (case r1 of c # cs \<Rightarrow> (if c = CHR ''.'' then drop (length fp) cs else r1)
                  | [] \<Rightarrow> []);
            v = (of_nat (digits_value (ip @ fp)) :: rat) * pow10 (read_exponent r2 - int (length fp))
        in if ip = [] \<and> fp = [] then Inl invalid_argument
           else if v > DBL_MAX \<or> (v \<noteq> 0 \<and> v < DBL_MIN) then Inl out_of_range
           else Inr (Fin (if neg then - v else v))))"

fun ndigits :: "nat \<Rightarrow> nat" where
  "ndigits n = (if n < 10 then 1 else 1 + ndigits (n div 10))"

declare ndigits.simps [simp del]

text \<open>The decimal exponent \<open>x\<close> of a positive number \<open>a\<close>: \<open>10 ^ x \<le> a < 10 ^ (x + 1)\<close>.\<close>

definition dec_exponent :: "rat \<Rightarrow> int" where
  "dec_exponent a =
     (if a \<ge> 1 then int (ndigits (nat \<lfloor>a\<rfloor>)) - 1
      else - int (ndigits (nat (\<lceil>1 / a\<rceil> - 1))))"

definition round_half_even :: "rat \<Rightarrow> int" where
  "round_half_even x =
     (let f = \<lfloor>x\<rfloor>; d = x - of_int f
      in if d > 1 / 2 \<or> (d = 1 / 2 \<and> odd f) then f + 1 else f)"

definition strip_zeros :: "string \<Rightarrow> string" where
  "strip_zeros ds = rev (dropWhile (\<lambda>c. c = CHR ''0'') (rev ds))"

definition with_point :: "string \<Rightarrow> string \<Rightarrow> string" where
  "with_point ip fp = (if strip_zeros fp = [] then ip else ip @ ''.'' @ strip_zeros fp)"

definition put_magnitude :: "rat \<Rightarrow> string" where
  "put_magnitude a =
     (let x0 = dec_exponent a;
          m0 = nat (round_half_even (a * pow10 (5 - x0)));
          m = (if m0 \<ge> 1000000 then m0 div 10 else m0);
          x = (if m0 \<ge> 1000000 then x0 + 1 else x0);
          ds = put_nat m
      in if x < - 4 \<or> x \<ge> 6
         then with_point (take 1 ds) (drop 1 ds) @ ''e'' @ (if x < 0 then ''-'' else ''+'')
                @ (if \<bar>x\<bar> < 10 then ''0'' else []) @ put_nat (nat \<bar>x\<bar>)
         else if x \<ge> 0 then with_point (take (nat x + 1) ds) (drop (nat x + 1) ds)
         else with_point ''0'' (replicate (nat (- x - 1)) (CHR ''0'') @ ds))"

fun std_put_double :: "double \<Rightarrow> string" where
  "std_put_double NaN = ''nan''"
| "std_put_double PInf = ''inf''"
| "std_put_double NInf = ''-inf''"
| "std_put_double (Fin r) =
     (if r = 0 then ''0'' else if r < 0 then CHR ''-'' # put_magnitude (- r)
      else put_magnitude r)"

declare std_put_double.simps [simp del]

section \<open>Properties of the generated text\<close>

text \<open>What every token of the four word lists satisfies.\<close>

definition plain_token :: "string \<Rightarrow> bool" where
  "plain_token w = (w \<noteq> [] \<and> CHR '' '' \<notin> set w \<and> CHR ''_'' \<notin> set w \<and> length w \<le> 12)"

section \<open>An order for the scores\<close>



text \<open>A score of the newest shape with finite numbers, for the examples.\<close>

definition example_score :: "string \<Rightarrow> rat \<Rightarrow> rat \<Rightarrow> PlayerScore" where
  "example_score n w a =
     \<lparr>name = n, wpm = Fin w, accuracy = Fin a, time = Fin 60, date = ''10/30/2026 12:00'',
      wordCount = 25, hasPunctuation = True, hasNumbers = False\<rparr>"

section \<open>Records that survive the file\<close>

text \<open>
  The output operator keeps six significant decimal digits of a number: \<open>round6 a\<close> is the
  value of the six digits printed for a positive \<open>a\<close>, and \<open>six_digits x\<close> is the number
  that the printed text of \<open>x\<close> denotes.
\<close>

definition round6 :: "rat \<Rightarrow> rat" where
  "round6 a =
     of_int (round_half_even (a * pow10 (5 - dec_exponent a))) * pow10 (dec_exponent a - 5)"

fun six_digits :: "double \<Rightarrow> double" where
  "six_digits (Fin r) = Fin (if r = 0 then 0 else if r < 0 then - round6 (- r) else round6 r)"
| "six_digits PInf = PInf"
| "six_digits NInf = NInf"
| "six_digits NaN = NaN"

text \<open>
  The six digits of a finite number other than zero have to lie in the range that
  \<open>std::stod\<close> accepts, or the number printed could not be read.
\<close>

fun prints_in_range :: "double \<Rightarrow> bool" where
  "prints_in_range (Fin r) = (r = 0 \<or> (DBL_MIN \<le> round6 \<bar>r\<bar> \<and> round6 \<bar>r\<bar> \<le> DBL_MAX))"
| "prints_in_range PInf = True"
| "prints_in_range NInf = True"
| "prints_in_range NaN = True"

text \<open>A record as it comes back from the file: the three numbers with six digits.\<close>

definition reread :: "PlayerScore \<Rightarrow> PlayerScore" where
  "reread r = r\<lparr>wpm := six_digits (wpm r), accuracy := six_digits (accuracy r),
               time := six_digits (time r)\<rparr>"

text \<open>
  What saving and loading need of a record: the name is what \<open>toUpperCase\<close> makes of it,
  neither the name nor the date holds a separator or a line break, the numbers print within
  the range of a \<open>double\<close>, the word count is an \<open>int\<close>, and the line fits a
  \<open>std::string\<close>.
\<close>

definition no_separator :: "string \<Rightarrow> bool" where
  "no_separator s = (CHR ''|'' \<notin> set s \<and> CHR 0x0A \<notin> set s)"

definition writable :: "PlayerScore \<Rightarrow> bool" where
  "writable r =
     (toUpperCase (name r) = name r \<and> no_separator (name r) \<and> no_separator (date r)
      \<and> prints_in_range (wpm r) \<and> prints_in_range (accuracy r) \<and> prints_in_range (time r)
      \<and> - 2147483648 \<le> wordCount r \<and> wordCount r \<le> 2147483647
      \<and> length (score_line std_put_double r) < npos)"

text \<open>A text of decimal digits only.\<close>

definition all_digits :: "string \<Rightarrow> bool" where
  "all_digits ds = (\<forall>c\<in>set ds. isdigit c)"
lemma words_plain: "list_all plain_token words"
  by (simp add: words_def plain_token_def)

lemma punctuationWords_plain: "list_all plain_token punctuationWords"
  by (simp add: punctuationWords_def plain_token_def)

lemma numberWords_plain: "list_all plain_token numberWords"
  by (simp add: numberWords_def plain_token_def)

lemma pureNumbers_plain: "list_all plain_token pureNumbers"
  by (simp add: pureNumbers_def plain_token_def)

lemma selected_pool_plain: "list_all plain_token (selected_pool p n)"
  by (simp add: selected_pool_def combinedWords_def words_plain punctuationWords_plain
      numberWords_plain pureNumbers_plain)

lemma selected_pool_nonempty: "selected_pool p n \<noteq> []"
  by (simp add: selected_pool_def combinedWords_def words_def pureNumbers_def)

lemma generate_target_pool:
  "generate_target wc p n rnd = gen_loop (selected_pool p n) rnd (nat wc) 0 []"
  by (simp add: generate_target_def selected_pool_def)

lemma gen_loop_concat:
  "gen_loop pool rnd n i tgt =
     tgt @ concat (map (\<lambda>k. (if k > 0 then '' '' else []) @ pool ! (rnd k mod length pool)) [i..<n])"
proof (induction pool rnd n i tgt rule: gen_loop.induct)
  case (1 pool rnd n i tgt)
  show ?case
  proof (cases "i < n")
    case True
    then have "[i..<n] = i # [i + 1..<n]"
      by (simp add: upt_conv_Cons)
    with True "1" show ?thesis
      by (subst gen_loop.simps) simp
  next
    case False
    then show ?thesis
      by (subst gen_loop.simps) simp
  qed
qed

lemma join_spaces_snoc: "ts \<noteq> [] \<Longrightarrow> join_spaces (ts @ [t]) = join_spaces ts @ '' '' @ t"
  by (induction ts rule: join_spaces.induct) auto

lemma concat_sep_join:
  "concat (map (\<lambda>k. (if k > 0 then '' '' else []) @ f k) [0..<n]) = join_spaces (map f [0..<n])"
proof (induction n)
  case 0
  then show ?case by simp
next
  case (Suc n)
  show ?case
  proof (cases "n = 0")
    case True
    then show ?thesis by simp
  next
    case False
    then have "map f [0..<n] \<noteq> []" by simp
    then show ?thesis
      using Suc False by (simp add: join_spaces_snoc)
  qed
qed

lemma gen_loop_join:
  "gen_loop pool rnd n 0 [] = join_spaces (drawn_tokens pool rnd n)"
  by (simp add: gen_loop_concat drawn_tokens_def concat_sep_join)

lemma drawn_tokens_in_pool:
  "pool \<noteq> [] \<Longrightarrow> t \<in> set (drawn_tokens pool rnd n) \<Longrightarrow> t \<in> set pool"
  by (auto simp: drawn_tokens_def)

lemma hd_join_spaces:
  "ts \<noteq> [] \<Longrightarrow> \<forall>t\<in>set ts. t \<noteq> [] \<Longrightarrow> hd (join_spaces ts) = hd (hd ts)"
  by (induction ts rule: join_spaces.induct) auto

lemma join_spaces_nonempty:
  "ts \<noteq> [] \<Longrightarrow> \<forall>t\<in>set ts. t \<noteq> [] \<Longrightarrow> join_spaces ts \<noteq> []"
  by (induction ts rule: join_spaces.induct) auto

lemma last_join_spaces:
  "ts \<noteq> [] \<Longrightarrow> \<forall>t\<in>set ts. t \<noteq> [] \<Longrightarrow> last (join_spaces ts) = last (last ts)"
  by (induction ts rule: join_spaces.induct) (auto simp: join_spaces_nonempty)

lemma count_spaces_join:
  "\<forall>t\<in>set ts. CHR '' '' \<notin> set t
     \<Longrightarrow> length (filter (\<lambda>c. c = CHR '' '') (join_spaces ts)) = length ts - 1"
proof (induction ts rule: join_spaces.induct)
  case (3 t v va)
  have "filter (\<lambda>c. c = CHR '' '') t = []"
    using 3 by (auto simp: filter_empty_conv)
  with 3 show ?case by simp
qed (auto simp: filter_empty_conv)

text \<open>
  Claim C9. For a word count from 1 to 1000 and any flags, the generated text is the tokens
  drawn from the selected pool, as many as the word count, joined by one space each: no
  token is empty or holds a space, the text holds one space fewer than tokens, and it
  neither starts nor ends with a space.
\<close>

theorem generate_target_tokens:
  assumes "1 \<le> wc" and "wc \<le> 1000"
  shows "let toks = drawn_tokens (selected_pool p n) rnd (nat wc);
             tgt = generate_target wc p n rnd
         in tgt = join_spaces toks \<and> length toks = nat wc
            \<and> (\<forall>t\<in>set toks. t \<in> set (selected_pool p n) \<and> t \<noteq> [] \<and> CHR '' '' \<notin> set t)
            \<and> length (filter (\<lambda>c. c = CHR '' '') tgt) = nat wc - 1
            \<and> tgt \<noteq> [] \<and> hd tgt \<noteq> CHR '' '' \<and> last tgt \<noteq> CHR '' ''"
proof -
  define toks where "toks = drawn_tokens (selected_pool p n) rnd (nat wc)"
  have tgt: "generate_target wc p n rnd = join_spaces toks"
    by (simp add: generate_target_pool gen_loop_join toks_def)
  have len: "length toks = nat wc"
    by (simp add: toks_def drawn_tokens_def)
  have ne: "toks \<noteq> []"
    using len assms by auto
  have mem: "t \<in> set (selected_pool p n)" if "t \<in> set toks" for t
    using that drawn_tokens_in_pool [OF selected_pool_nonempty] by (simp add: toks_def)
  have plain: "plain_token t" if "t \<in> set toks" for t
    using mem [OF that] selected_pool_plain [of p n] by (simp add: list_all_iff)
  have tok: "\<forall>t\<in>set toks. t \<in> set (selected_pool p n) \<and> t \<noteq> [] \<and> CHR '' '' \<notin> set t"
    using mem plain by (auto simp: plain_token_def)
  have nonempty: "\<forall>t\<in>set toks. t \<noteq> []" and nospace: "\<forall>t\<in>set toks. CHR '' '' \<notin> set t"
    using tok by auto
  have hd_in: "hd toks \<in> set toks" and last_in: "last toks \<in> set toks"
    using ne by auto
  have "hd (hd toks) \<in> set (hd toks)" and "last (last toks) \<in> set (last toks)"
    using nonempty hd_in last_in by auto
  then have ends: "hd (hd toks) \<noteq> CHR '' ''" "last (last toks) \<noteq> CHR '' ''"
    using nospace hd_in last_in by metis+
  show ?thesis
    unfolding Let_def toks_def [symmetric] tgt
    using len tok ends
    by (simp add: count_spaces_join [OF nospace] join_spaces_nonempty [OF ne nonempty]
        hd_join_spaces [OF ne nonempty] last_join_spaces [OF ne nonempty])
qed

text \<open>The theorem at three tokens in numbers-only mode.\<close>

theorem generate_target_tokens_witness:
  "(1::int) \<le> 3 \<and> (3::int) \<le> 1000
   \<and> generate_target 3 False True (\<lambda>i. 7 * i) = ''0 7 14''
   \<and> drawn_tokens (selected_pool False True) (\<lambda>i. 7 * i) (nat 3) = [''0'', ''7'', ''14'']
   \<and> length (filter (\<lambda>c. c = CHR '' '') (generate_target 3 False True (\<lambda>i. 7 * i))) = 2"
proof -
  have toks: "drawn_tokens (selected_pool False True) (\<lambda>i. 7 * i) (nat 3) = [''0'', ''7'', ''14'']"
    by (simp add: drawn_tokens_def selected_pool_def pureNumbers_def upt_rec nat_numeral)
  show ?thesis
    using generate_target_tokens [of 3 False True "\<lambda>i. 7 * i"] toks
    by (simp add: Let_def)
qed

section \<open>Properties of the typing session\<close>

subsection \<open>Searching a string\<close>

lemma find_char_found:
  assumes "c \<in> set (drop p s)"
  shows "p \<le> find_char s c p" and "find_char s c p < length s" and "s ! find_char s c p = c"
    and "\<And>j. p \<le> j \<Longrightarrow> j < find_char s c p \<Longrightarrow> s ! j \<noteq> c"
proof -
  define k where "k = length (takeWhile (\<lambda>x. x \<noteq> c) (drop p s))"
  have f: "find_char s c p = p + k"
    using assms by (simp add: find_char_def k_def)
  have "dropWhile (\<lambda>x. x \<noteq> c) (drop p s) \<noteq> []"
    using assms by (auto simp: dropWhile_eq_Nil_conv)
  moreover have "length (takeWhile (\<lambda>x. x \<noteq> c) (drop p s))
                   + length (dropWhile (\<lambda>x. x \<noteq> c) (drop p s)) = length (drop p s)"
    by (metis length_append takeWhile_dropWhile_id)
  ultimately have klt: "k < length (drop p s)"
    unfolding k_def by (cases "dropWhile (\<lambda>x. x \<noteq> c) (drop p s)") auto
  have at: "drop p s ! k = c"
    unfolding k_def using assms nth_length_takeWhile [of "\<lambda>x. x \<noteq> c" "drop p s"] klt
    by (auto simp: k_def)
  show "p \<le> find_char s c p" by (simp add: f)
  show "find_char s c p < length s" using klt by (simp add: f)
  show "s ! find_char s c p = c" using at klt by (simp add: f)
  show "s ! j \<noteq> c" if "p \<le> j" and "j < find_char s c p" for j
  proof -
    have "j - p < k" using that by (simp add: f)
    then have "takeWhile (\<lambda>x. x \<noteq> c) (drop p s) ! (j - p) \<in> set (takeWhile (\<lambda>x. x \<noteq> c) (drop p s))"
      by (simp add: k_def)
    then have "takeWhile (\<lambda>x. x \<noteq> c) (drop p s) ! (j - p) \<noteq> c"
      using set_takeWhileD [of _ "\<lambda>x. x \<noteq> c" "drop p s"] by blast
    moreover have "takeWhile (\<lambda>x. x \<noteq> c) (drop p s) ! (j - p) = drop p s ! (j - p)"
      using \<open>j - p < k\<close> by (simp add: k_def takeWhile_nth)
    ultimately show ?thesis using that klt by simp
  qed
qed

lemma find_char_none:
  assumes "c \<notin> set (drop p s)"
  shows "find_char s c p = npos" and "\<And>j. p \<le> j \<Longrightarrow> j < length s \<Longrightarrow> s ! j \<noteq> c"
proof -
  show "find_char s c p = npos" using assms by (simp add: find_char_def)
  show "s ! j \<noteq> c" if "p \<le> j" and "j < length s" for j
  proof
    assume "s ! j = c"
    then have "drop p s ! (j - p) = c" using that by simp
    moreover have "j - p < length (drop p s)" using that by simp
    ultimately have "c \<in> set (drop p s)" by (metis nth_mem)
    with assms show False by simp
  qed
qed

subsection \<open>The two loops of the word skip\<close>

lemma skip_spaces_ge: "space_pos \<le> skip_spaces tgt space_pos"
proof (induction tgt space_pos rule: skip_spaces.induct)
  case (1 tgt space_pos)
  then show ?case by (subst skip_spaces.simps) auto
qed

lemma skip_spaces_le: "space_pos \<le> length tgt \<Longrightarrow> skip_spaces tgt space_pos \<le> length tgt"
proof (induction tgt space_pos rule: skip_spaces.induct)
  case (1 tgt space_pos)
  then show ?case by (subst skip_spaces.simps) auto
qed

lemma skip_spaces_all_spaces:
  "space_pos \<le> i \<Longrightarrow> i < skip_spaces tgt space_pos \<Longrightarrow> tgt ! i = CHR '' ''"
proof (induction tgt space_pos rule: skip_spaces.induct)
  case (1 tgt space_pos)
  show ?case
  proof (cases "space_pos < length tgt \<and> tgt ! space_pos = CHR '' ''")
    case True
    then have eq: "skip_spaces tgt space_pos = skip_spaces tgt (space_pos + 1)"
      by (subst skip_spaces.simps) simp
    show ?thesis
    proof (cases "i = space_pos")
      case True
      with \<open>space_pos < length tgt \<and> tgt ! space_pos = CHR '' ''\<close> show ?thesis by simp
    next
      case False
      with "1.prems" have "space_pos + 1 \<le> i" by simp
      with "1.IH" True "1.prems" eq show ?thesis by simp
    qed
  next
    case False
    then have "skip_spaces tgt space_pos = space_pos"
      by (subst skip_spaces.simps) auto
    with "1.prems" show ?thesis by simp
  qed
qed

lemma skip_spaces_stops:
  "skip_spaces tgt space_pos < length tgt \<Longrightarrow> tgt ! skip_spaces tgt space_pos \<noteq> CHR '' ''"
proof (induction tgt space_pos rule: skip_spaces.induct)
  case (1 tgt space_pos)
  show ?case
  proof (cases "space_pos < length tgt \<and> tgt ! space_pos = CHR '' ''")
    case True
    then have "skip_spaces tgt space_pos = skip_spaces tgt (space_pos + 1)"
      by (subst skip_spaces.simps) simp
    with "1" True show ?thesis by simp
  next
    case False
    then have eq: "skip_spaces tgt space_pos = space_pos"
      by (subst skip_spaces.simps) auto
    with "1.prems" False show ?thesis by auto
  qed
qed

lemma fill_skipped_eq:
  "fill_skipped tgt next_word_pos ty =
     ty @ map (\<lambda>i. if tgt ! i = CHR '' '' then CHR '' '' else CHR ''_'')
            [length ty ..< min next_word_pos (length tgt)]"
proof (induction tgt next_word_pos ty rule: fill_skipped.induct)
  case (1 tgt next_word_pos ty)
  show ?case
  proof (cases "length ty < next_word_pos \<and> length ty < length tgt")
    case True
    then have "[length ty ..< min next_word_pos (length tgt)]
                 = length ty # [length ty + 1 ..< min next_word_pos (length tgt)]"
      by (simp add: upt_conv_Cons)
    with True "1" show ?thesis
      by (subst fill_skipped.simps) simp
  next
    case False
    then show ?thesis
      by (subst fill_skipped.simps) auto
  qed
qed

lemma length_fill_skipped:
  "length (fill_skipped tgt next_word_pos ty) = max (length ty) (min next_word_pos (length tgt))"
  by (simp add: fill_skipped_eq)

lemma next_word_pos_of_gt:
  assumes "p < length tgt" and "tgt ! p \<noteq> CHR '' ''"
  shows "p < next_word_pos_of tgt p" and "next_word_pos_of tgt p \<le> length tgt"
proof -
  show "p < next_word_pos_of tgt p"
  proof (cases "CHR '' '' \<in> set (drop p tgt)")
    case True
    have "find_char tgt (CHR '' '') p \<noteq> p"
      using find_char_found(3) [OF True] assms by auto
    with find_char_found(1) [OF True] have "p < find_char tgt (CHR '' '') p" by simp
    with skip_spaces_ge [of "find_char tgt (CHR '' '') p" tgt] assms
    show ?thesis by (auto simp: next_word_pos_of_def Let_def)
  next
    case False
    with assms show ?thesis
      by (simp add: next_word_pos_of_def find_char_none(1))
  qed
  show "next_word_pos_of tgt p \<le> length tgt"
  proof (cases "CHR '' '' \<in> set (drop p tgt)")
    case True
    with find_char_found(2) [OF True] skip_spaces_le [of "find_char tgt (CHR '' '') p" tgt]
    show ?thesis by (auto simp: next_word_pos_of_def Let_def)
  next
    case False
    then show ?thesis
      by (simp add: next_word_pos_of_def find_char_none(1))
  qed
qed

lemma next_word_index_eq:
  assumes "p < j" and "j \<le> length tgt"
    and "j < length tgt \<Longrightarrow> word_starts_at tgt j"
    and "\<And>k. p < k \<Longrightarrow> k < j \<Longrightarrow> \<not> word_starts_at tgt k"
  shows "next_word_index tgt p = j"
proof -
  have split: "[p + 1 ..< length tgt] = [p + 1 ..< j] @ [j ..< length tgt]"
    using assms(1,2) upt_add_eq_append [of "p + 1" j "length tgt - j"] by simp
  have none: "filter (word_starts_at tgt) [p + 1 ..< j] = []"
    using assms(4) by (auto simp: filter_empty_conv)
  show ?thesis
  proof (cases "j < length tgt")
    case True
    then have "[j ..< length tgt] = j # [j + 1 ..< length tgt]"
      by (simp add: upt_conv_Cons)
    with assms(3) [OF True] split none show ?thesis
      by (simp add: next_word_index_def)
  next
    case False
    with assms(2) have "j = length tgt" by simp
    with split none show ?thesis
      by (simp add: next_word_index_def)
  qed
qed

lemma next_word_pos_of_spec:
  assumes "p < length tgt" and "tgt ! p \<noteq> CHR '' ''" and "length tgt < npos"
  shows "next_word_pos_of tgt p = next_word_index tgt p"
proof (cases "CHR '' '' \<in> set (drop p tgt)")
  case True
  define sp where "sp = find_char tgt (CHR '' '') p"
  define j where "j = skip_spaces tgt sp"
  note f = find_char_found [OF True, folded sp_def]
  have "sp \<noteq> npos" using f(2) assms(3) by simp
  then have code: "next_word_pos_of tgt p = j"
    by (simp add: next_word_pos_of_def sp_def j_def)
  have "sp \<noteq> p" using f(3) assms(2) by auto
  with f(1) have psp: "p < sp" by simp
  have spj: "sp < j"
  proof -
    have "skip_spaces tgt sp = skip_spaces tgt (sp + 1)"
      using f(2,3) by (subst skip_spaces.simps) simp
    with skip_spaces_ge [of "sp + 1" tgt] show ?thesis by (simp add: j_def)
  qed
  have jle: "j \<le> length tgt"
    using skip_spaces_le [of sp tgt] f(2) by (simp add: j_def)
  have spaces: "tgt ! i = CHR '' ''" if "sp \<le> i" and "i < j" for i
    using skip_spaces_all_spaces [of sp i tgt] that by (simp add: j_def)
  have start: "word_starts_at tgt j" if "j < length tgt"
  proof -
    have "tgt ! j \<noteq> CHR '' ''"
      using skip_spaces_stops [of tgt sp] that by (simp add: j_def)
    moreover have "tgt ! (j - 1) = CHR '' ''"
      using spaces [of "j - 1"] spj by simp
    ultimately show ?thesis
      using that spj by (simp add: word_starts_at_def)
  qed
  have no_start: "\<not> word_starts_at tgt k" if "p < k" and "k < j" for k
  proof (cases "k < sp")
    case True
    then have "tgt ! (k - 1) \<noteq> CHR '' ''"
      using f(4) [of "k - 1"] that by simp
    then show ?thesis by (simp add: word_starts_at_def)
  next
    case False
    then have "tgt ! k = CHR '' ''"
      using spaces [of k] that by simp
    then show ?thesis by (simp add: word_starts_at_def)
  qed
  have "next_word_index tgt p = j"
    using psp spj jle start no_start by (intro next_word_index_eq) auto
  with code show ?thesis by simp
next
  case False
  note n = find_char_none [OF False]
  have code: "next_word_pos_of tgt p = length tgt"
    by (simp add: next_word_pos_of_def n(1))
  have no_start: "\<not> word_starts_at tgt k" if "p < k" and "k < length tgt" for k
  proof -
    have "tgt ! (k - 1) \<noteq> CHR '' ''"
      using n(2) [of "k - 1"] that by simp
    then show ?thesis by (simp add: word_starts_at_def)
  qed
  have "next_word_index tgt p = length tgt"
    using assms(1) no_start by (intro next_word_index_eq) auto
  with code show ?thesis by simp
qed

subsection \<open>What the generated text looks like\<close>

lemma set_join_spaces:
  "set (join_spaces ts) \<subseteq> insert (CHR '' '') (\<Union>t\<in>set ts. set t)"
  by (induction ts rule: join_spaces.induct) auto

lemma length_join_spaces:
  "\<forall>t\<in>set ts. length t \<le> 12 \<Longrightarrow> length (join_spaces ts) \<le> 13 * length ts"
  by (induction ts rule: join_spaces.induct) auto

lemma drawn_tokens_plain:
  assumes "t \<in> set (drawn_tokens (selected_pool p n) rnd k)"
  shows "plain_token t"
  using drawn_tokens_in_pool [OF selected_pool_nonempty assms] selected_pool_plain [of p n]
  by (simp add: list_all_iff)

lemma generate_target_no_underscore: "CHR ''_'' \<notin> set (generate_target wc p n rnd)"
proof
  assume "CHR ''_'' \<in> set (generate_target wc p n rnd)"
  then have "CHR ''_'' \<in> insert (CHR '' '')
               (\<Union>t\<in>set (drawn_tokens (selected_pool p n) rnd (nat wc)). set t)"
    using set_join_spaces [of "drawn_tokens (selected_pool p n) rnd (nat wc)"]
    by (auto simp: generate_target_pool gen_loop_join)
  then obtain t where "t \<in> set (drawn_tokens (selected_pool p n) rnd (nat wc))"
    and "CHR ''_'' \<in> set t" by auto
  with drawn_tokens_plain show False
    by (auto simp: plain_token_def)
qed

lemma length_generate_target: "length (generate_target wc p n rnd) \<le> 13 * nat wc"
proof -
  have "\<forall>t\<in>set (drawn_tokens (selected_pool p n) rnd (nat wc)). length t \<le> 12"
    using drawn_tokens_plain by (auto simp: plain_token_def)
  from length_join_spaces [OF this] show ?thesis
    by (simp add: generate_target_pool gen_loop_join drawn_tokens_def)
qed

subsection \<open>The key dispatch\<close>

lemma handle_key_backspace:
  assumes "ch = KEY_BACKSPACE \<or> ch = 127 \<or> ch = 8"
  shows "handle_key wc p n rnd now ch s =
     (if has_jumped s \<and> length (typed s) > jumped_from_pos s
      then s\<lparr>typed := take (jumped_from_pos s) (typed s),
             has_jumped := False, jumped_from_pos := npos\<rparr>
      else if typed s \<noteq> []
      then s\<lparr>typed := butlast (typed s), has_jumped := False, jumped_from_pos := npos\<rparr>
      else s)"
  using assms by (auto simp: handle_key_def)

lemma handle_key_space:
  "handle_key wc p n rnd now 32 s =
     (if length (typed s) < length (target s) then
        (if target s ! length (typed s) \<noteq> CHR '' ''
         then (start_timer now s)\<lparr>jumped_from_pos := length (typed s),
                 typed := fill_skipped (target s)
                            (next_word_pos_of (target s) (length (typed s))) (typed s),
                 has_jumped := True\<rparr>
         else (start_timer now s)\<lparr>typed := typed s @ '' '', has_jumped := False,
                 jumped_from_pos := npos\<rparr>)
      else s)"
  by (simp add: handle_key_def KEY_BACKSPACE_def start_timer_def Let_def)

lemma handle_key_printable:
  assumes "33 \<le> ch" and "ch \<le> 126"
  shows "handle_key wc p n rnd now ch s =
     (if length (typed s) < length (target s)
      then (start_timer now s)\<lparr>typed := typed s @ [char_of ch],
              has_jumped := False, jumped_from_pos := npos\<rparr>
      else s)"
proof -
  have "ch \<noteq> KEY_BACKSPACE" and "ch \<noteq> 127" and "ch \<noteq> 8" and "ch \<noteq> 32"
    using assms by (auto simp: KEY_BACKSPACE_def)
  then show ?thesis
    using assms by (simp add: handle_key_def)
qed

lemma handle_key_enter:
  assumes "ch = 10 \<or> ch = 13"
  shows "handle_key wc p n rnd now ch s =
     s\<lparr>typed := [], started := False, target := generate_target wc p n rnd,
       has_jumped := False, jumped_from_pos := npos\<rparr>"
proof -
  have "ch \<noteq> KEY_BACKSPACE" and "ch \<noteq> 127" and "ch \<noteq> 8" and "ch \<noteq> 32"
    and "\<not> 33 \<le> ch"
    using assms by (auto simp: KEY_BACKSPACE_def)
  then show ?thesis
    using assms by (auto simp: handle_key_def)
qed

lemma handle_key_other:
  assumes "\<not> (ch = KEY_BACKSPACE \<or> ch = 127 \<or> ch = 8)" and "ch \<noteq> 32"
    and "\<not> (33 \<le> ch \<and> ch \<le> 126)" and "\<not> (ch = 10 \<or> ch = 13)"
  shows "handle_key wc p n rnd now ch s = s"
  using assms by (auto simp: handle_key_def)

lemma handle_key_within_target:
  assumes "length (typed s) \<le> length (target s)"
  shows "length (typed (handle_key wc p n rnd now ch s))
           \<le> length (target (handle_key wc p n rnd now ch s))"
proof -
  consider (backspace) "ch = KEY_BACKSPACE \<or> ch = 127 \<or> ch = 8"
    | (space) "ch = 32"
    | (printable) "33 \<le> ch \<and> ch \<le> 126"
    | (enter) "ch = 10 \<or> ch = 13"
    | (other) "\<not> (ch = KEY_BACKSPACE \<or> ch = 127 \<or> ch = 8) \<and> ch \<noteq> 32
               \<and> \<not> (33 \<le> ch \<and> ch \<le> 126) \<and> \<not> (ch = 10 \<or> ch = 13)"
    by blast
  then show ?thesis
  proof cases
    case backspace
    show ?thesis
      using assms by (auto simp: handle_key_backspace [OF backspace])
  next
    case space
    show ?thesis
      using assms
      by (simp add: space handle_key_space start_timer_def length_fill_skipped Suc_le_eq)
  next
    case printable
    then show ?thesis
      using assms by (simp add: handle_key_printable start_timer_def Suc_le_eq)
  next
    case enter
    show ?thesis
      by (simp add: handle_key_enter [OF enter])
  next
    case other
    then show ?thesis
      using assms by (simp add: handle_key_other)
  qed
qed

lemma target_handle_key:
  "target (handle_key wc p n rnd now ch s) = target s
   \<or> target (handle_key wc p n rnd now ch s) = generate_target wc p n rnd"
  by (simp add: handle_key_def start_timer_def Let_def)

lemma reachable_word_count: "reachable wc p n s \<Longrightarrow> 1 \<le> wc \<and> wc \<le> 1000"
  by (induction rule: reachable.induct) auto

lemma reachable_target:
  assumes "reachable wc p n s"
  shows "CHR ''_'' \<notin> set (target s)" and "length (target s) < npos"
proof -
  have bound: "length (generate_target wc p n rnd) < npos" for rnd
  proof -
    have "13 * nat wc \<le> 13000"
      using reachable_word_count [OF assms] by linarith
    with length_generate_target [of wc p n rnd] show ?thesis
      by (simp add: npos_def)
  qed
  have "CHR ''_'' \<notin> set (target s) \<and> length (target s) < npos"
    using assms
  proof (induction rule: reachable.induct)
    case (start rnd)
    then show ?case
      using bound by (simp add: new_session_def generate_target_no_underscore)
  next
    case (key s ch rnd now)
    then show ?case
      using target_handle_key [of wc p n rnd now ch s] bound [of rnd]
        generate_target_no_underscore [of wc p n rnd]
      by auto
  qed
  then show "CHR ''_'' \<notin> set (target s)" and "length (target s) < npos" by simp_all
qed

lemma handle_key_space_skip:
  assumes "length (typed s) < length (target s)"
    and "target s ! length (typed s) \<noteq> CHR '' ''"
  shows "handle_key wc p n rnd now 32 s =
           (start_timer now s)\<lparr>jumped_from_pos := length (typed s),
              typed := fill_skipped (target s)
                         (next_word_pos_of (target s) (length (typed s))) (typed s),
              has_jumped := True\<rparr>"
  using assms by (simp add: handle_key_space)

lemma live_stats_positive_elapsed:
  assumes "live_stats now s = Some (w, a, e)"
  shows "start_time s < now" and "e = Fin (of_int (now - start_time s))"
    and "started s" and "typed s \<noteq> []"
  using assms
  by (auto simp: live_stats_def Let_def difftime_def dgt_def split: if_splits)

text \<open>
  Claim C8. In every state the typing loop can reach, \<open>typed\<close> is no longer than
  \<open>target\<close>: the session starts with nothing typed, and the dispatch of a key keeps the
  bound (\<open>handle_key_within_target\<close>), whether the key is a printable character, a space with
  or without a skip, a backspace, or a restart.
\<close>

theorem typed_within_target:
  assumes "reachable wc p n s"
  shows "length (typed s) \<le> length (target s)"
  using assms
proof (induction rule: reachable.induct)
  case (start rnd)
  then show ?case by (simp add: new_session_def)
next
  case (key s ch rnd now)
  then show ?case by (simp add: handle_key_within_target)
qed

text \<open>The theorem on the state after the key \<open>h\<close> on a one-word text.\<close>

theorem typed_within_target_witness:
  "reachable 1 False False
     (handle_key 1 False False (\<lambda>i. 0) 100 104
        (new_session (generate_target 1 False False (\<lambda>i. 0))))
   \<and> length (typed (handle_key 1 False False (\<lambda>i. 0) 100 104
        (new_session (generate_target 1 False False (\<lambda>i. 0)))))
      \<le> length (target (handle_key 1 False False (\<lambda>i. 0) 100 104
        (new_session (generate_target 1 False False (\<lambda>i. 0)))))"
proof -
  have r: "reachable 1 False False
     (handle_key 1 False False (\<lambda>i. 0) 100 104
        (new_session (generate_target 1 False False (\<lambda>i. 0))))"
    by (intro reachable.key reachable.start) simp_all
  from typed_within_target [OF r] r show ?thesis by simp
qed

text \<open>
  Claim C3. In a reachable state with text left to type and a next character that is not a
  space, the space key records the old length of \<open>typed\<close> as the jump position and extends
  \<open>typed\<close>, keeping what was typed, up to the index of the next word's first character, or
  to the end of the text when no word follows; every appended character that is not a space
  differs from the character of the text at its position. The appended characters are
  underscores, and the text of a reachable state is a generated one, which holds none
  (\<open>reachable_target\<close>).
\<close>

theorem space_skips_to_next_word:
  assumes "reachable wc p n s"
    and "length (typed s) < length (target s)"
    and "target s ! length (typed s) \<noteq> CHR '' ''"
  shows "let s' = handle_key wc p n rnd now 32 s in
           jumped_from_pos s' = length (typed s) \<and> has_jumped s' \<and> target s' = target s
           \<and> take (length (typed s)) (typed s') = typed s
           \<and> length (typed s') = next_word_index (target s) (length (typed s))
           \<and> (\<forall>i. length (typed s) \<le> i \<and> i < length (typed s') \<and> typed s' ! i \<noteq> CHR '' ''
                  \<longrightarrow> typed s' ! i \<noteq> target s ! i)"
proof -
  define q where "q = length (typed s)"
  define j where "j = next_word_pos_of (target s) q"
  define f where "f = (\<lambda>i. if target s ! i = CHR '' '' then CHR '' '' else CHR ''_'')"
  define s' where "s' = handle_key wc p n rnd now 32 s"
  note t = reachable_target [OF assms(1)]
  have j: "q < j" "j \<le> length (target s)"
    using next_word_pos_of_gt [OF assms(2,3)] by (simp_all add: j_def q_def)
  have spec: "j = next_word_index (target s) q"
    using next_word_pos_of_spec [OF assms(2,3) t(2)] by (simp add: j_def q_def)
  have ty: "typed s' = typed s @ map f [q ..< j]"
    using j by (simp add: s'_def handle_key_space_skip [OF assms(2,3)] fill_skipped_eq
        j_def q_def f_def min_def)
  have rest: "jumped_from_pos s' = q" "has_jumped s'" "target s' = target s"
    by (simp_all add: s'_def handle_key_space_skip [OF assms(2,3)] start_timer_def q_def)
  have len: "length (typed s') = j"
    using j by (simp add: ty q_def)
  have wrong: "typed s' ! i \<noteq> target s ! i"
    if "q \<le> i" and "i < length (typed s')" and "typed s' ! i \<noteq> CHR '' ''" for i
  proof -
    have "typed s' ! i = f i"
      using that len by (simp add: ty nth_append q_def)
    moreover have "target s ! i \<in> set (target s)"
      using that len j by simp
    ultimately show ?thesis
      using that(3) t(1) by (auto simp: f_def)
  qed
  show ?thesis
    unfolding Let_def s'_def [symmetric] q_def [symmetric]
    using rest len spec wrong by (simp add: ty q_def)
qed

lemma generate_two_words:
  "generate_target 2 False False (\<lambda>i. 7 * i) = ''the dog''"
  by (simp add: generate_target_def gen_loop.simps combinedWords_def words_def)

lemma generate_one_word:
  "generate_target 1 False False (\<lambda>i. 0) = ''the''"
  by (simp add: generate_target_def gen_loop.simps combinedWords_def words_def)

text \<open>The theorem after \<open>t\<close> has been typed on the text \<open>the dog\<close>.\<close>

theorem space_skips_to_next_word_witness:
  "let s = handle_key 2 False False (\<lambda>i. 0) 100 116
             (new_session (generate_target 2 False False (\<lambda>i. 7 * i)));
       s' = handle_key 2 False False (\<lambda>i. 0) 101 32 s
   in reachable 2 False False s \<and> target s = ''the dog'' \<and> typed s = ''t''
      \<and> length (typed s) < length (target s) \<and> target s ! length (typed s) \<noteq> CHR '' ''
      \<and> typed s' = ''t__ '' \<and> jumped_from_pos s' = 1 \<and> has_jumped s'
      \<and> next_word_index (target s) (length (typed s)) = 4"
proof -
  define s where "s = handle_key 2 False False (\<lambda>i. 0) 100 116
             (new_session (generate_target 2 False False (\<lambda>i. 7 * i)))"
  have r: "reachable 2 False False s"
    unfolding s_def by (intro reachable.key reachable.start) simp_all
  have s: "target s = ''the dog''" "typed s = ''t''"
    by (simp_all add: s_def generate_two_words handle_key_printable new_session_def
        start_timer_def char_of_eq_iff)
  have h: "length (typed s) < length (target s)" "target s ! length (typed s) \<noteq> CHR '' ''"
    by (simp_all add: s)
  have skip: "typed (handle_key 2 False False (\<lambda>i. 0) 101 32 s) = ''t__ ''"
    by (simp add: handle_key_space s start_timer_def next_word_pos_of_def find_char_def
        npos_def skip_spaces.simps fill_skipped.simps)
  from space_skips_to_next_word [OF r h, of "\<lambda>i. 0" 101] r s h skip
  show ?thesis
    unfolding Let_def s_def [symmetric] by simp
qed

text \<open>
  Claim C4. A backspace (any of its three key codes) with a jump recorded below the length
  of \<open>typed\<close> cuts \<open>typed\<close> back to the jump position and clears the jump; with no jump
  and something typed it removes the last character; and a backspace right after a word skip
  gives back what was typed before the skip.
\<close>

theorem backspace_undoes_skip:
  assumes "ch = KEY_BACKSPACE \<or> ch = 127 \<or> ch = 8"
  shows "let s' = handle_key wc p n rnd now ch s in
           (has_jumped s \<and> jumped_from_pos s < length (typed s)
              \<longrightarrow> typed s' = take (jumped_from_pos s) (typed s)
                  \<and> length (typed s') = jumped_from_pos s
                  \<and> \<not> has_jumped s' \<and> jumped_from_pos s' = npos)
           \<and> (\<not> has_jumped s \<and> typed s \<noteq> []
              \<longrightarrow> typed s' = butlast (typed s)
                  \<and> length (typed s') = length (typed s) - 1
                  \<and> \<not> has_jumped s' \<and> jumped_from_pos s' = npos)
           \<and> (length (typed s) < length (target s) \<and> target s ! length (typed s) \<noteq> CHR '' ''
              \<longrightarrow> typed (handle_key wc p n rnd' now' ch (handle_key wc p n rnd now 32 s))
                    = typed s)"
proof -
  have undo: "typed (handle_key wc p n rnd' now' ch (handle_key wc p n rnd now 32 s)) = typed s"
    if a: "length (typed s) < length (target s)"
      and b: "target s ! length (typed s) \<noteq> CHR '' ''"
  proof -
    define s1 where "s1 = handle_key wc p n rnd now 32 s"
    have ty: "typed s1 = fill_skipped (target s)
                (next_word_pos_of (target s) (length (typed s))) (typed s)"
      and jp: "jumped_from_pos s1 = length (typed s)" and hj: "has_jumped s1"
      by (simp_all add: s1_def handle_key_space_skip [OF a b])
    have longer: "length (typed s) < length (typed s1)"
      using next_word_pos_of_gt [OF a b] a by (simp add: ty length_fill_skipped)
    have "take (length (typed s)) (typed s1) = typed s"
      by (simp add: ty fill_skipped_eq)
    with jp hj longer show ?thesis
      unfolding s1_def [symmetric] by (simp add: handle_key_backspace [OF assms])
  qed
  show ?thesis
    unfolding Let_def using undo by (auto simp: handle_key_backspace [OF assms])
qed

text \<open>
  The theorem on the text \<open>the dog\<close>: a backspace after the skip from \<open>t\<close>, and a
  backspace with no jump recorded.
\<close>

theorem backspace_undoes_skip_witness:
  "let s0 = (new_session ''the dog'')\<lparr>typed := ''t'', start_time := 100, started := True\<rparr>;
       s1 = handle_key 2 False False (\<lambda>i. 0) 101 32 s0;
       s2 = handle_key 2 False False (\<lambda>i. 0) 102 127 s1;
       s3 = handle_key 2 False False (\<lambda>i. 0) 103 127 s0
   in (127 = KEY_BACKSPACE \<or> (127::int) = 127 \<or> (127::int) = 8)
      \<and> length (typed s0) < length (target s0) \<and> target s0 ! length (typed s0) \<noteq> CHR '' ''
      \<and> typed s1 = ''t__ '' \<and> has_jumped s1 \<and> jumped_from_pos s1 < length (typed s1)
      \<and> typed s2 = ''t'' \<and> \<not> has_jumped s2 \<and> jumped_from_pos s2 = npos
      \<and> \<not> has_jumped s0 \<and> typed s0 \<noteq> [] \<and> typed s3 = []"
proof -
  define s0 where "s0 = (new_session ''the dog'')\<lparr>typed := ''t'', start_time := 100, started := True\<rparr>"
  define s1 where "s1 = handle_key 2 False False (\<lambda>i. 0) 101 32 s0"
  have k: "127 = KEY_BACKSPACE \<or> (127::int) = 127 \<or> (127::int) = 8" by simp
  have s0: "target s0 = ''the dog''" "typed s0 = ''t''" "\<not> has_jumped s0"
    by (simp_all add: s0_def new_session_def)
  have s1: "typed s1 = ''t__ ''" "has_jumped s1" "jumped_from_pos s1 = 1"
    by (simp_all add: s1_def handle_key_space s0 start_timer_def next_word_pos_of_def
        find_char_def npos_def skip_spaces.simps fill_skipped.simps)
  from backspace_undoes_skip [OF k, where s = s1 and wc = 2 and p = False and n = False
        and rnd = "\<lambda>i. 0" and now = 102]
    backspace_undoes_skip [OF k, where s = s0 and wc = 2 and p = False and n = False
        and rnd = "\<lambda>i. 0" and now = 103 and rnd' = "\<lambda>i. 0" and now' = 102] s0 s1
  show ?thesis
    unfolding Let_def s0_def [symmetric] s1_def [symmetric] by simp
qed

text \<open>
  Claim C1 asks that no rate is computed from an elapsed time of zero, for the live display
  and for the final score alike. The live display has the guard
  (\<open>live_stats_positive_elapsed\<close>); the final score has none. On the one-word text \<open>the\<close>, a
  space as first key skips the whole word, the text is complete within the second the timer
  started, and the recorded WPM is the result of \<open>0 / 0\<close>.
\<close>

theorem final_score_divides_by_zero_elapsed:
  "let s = handle_key 1 False False (\<lambda>i. 0) 100 32
             (new_session (generate_target 1 False False (\<lambda>i. 0)))
   in target s = ''the'' \<and> typed s = ''___'' \<and> started s \<and> start_time s = 100
      \<and> live_stats 100 s = None
      \<and> completion ''BOB'' ''10/30/2026 12:00'' 1 False False 100 s =
          Some \<lparr>name = ''BOB'', wpm = NaN, accuracy = Fin 0, time = Fin 0,
                date = ''10/30/2026 12:00'', wordCount = 1, hasPunctuation = False,
                hasNumbers = False\<rparr>"
proof -
  define s where "s = handle_key 1 False False (\<lambda>i. 0) 100 32
             (new_session (generate_target 1 False False (\<lambda>i. 0)))"
  have s: "target s = ''the''" "typed s = ''___''" "started s" "start_time s = 100"
    by (simp_all add: s_def generate_one_word handle_key_space new_session_def start_timer_def
        next_word_pos_of_def find_char_def fill_skipped.simps)
  have live: "live_stats 100 s = None"
    by (simp add: live_stats_def s difftime_def dgt_def)
  have fin: "completion ''BOB'' ''10/30/2026 12:00'' 1 False False 100 s =
          Some \<lparr>name = ''BOB'', wpm = NaN, accuracy = Fin 0, time = Fin 0,
                date = ''10/30/2026 12:00'', wordCount = 1, hasPunctuation = False,
                hasNumbers = False\<rparr>"
    by (simp add: completion_def final_score_def s difftime_def count_correct_def
        accuracy_of_def raw_wpm_of_def penalised_def Let_def)
  show ?thesis
    unfolding Let_def s_def [symmetric] using s live fin by simp
qed

section \<open>Properties of the leaderboard\<close>

subsection \<open>Comparing scores\<close>






subsection \<open>The sort\<close>
















text \<open>
  The condition on the records of the board is needed as much as the one on the new record:
  with that record of WPM \<open>NaN\<close> on the board, a new record of WPM 90 is left behind it.
\<close>

lemma addToLeaderboard_nan_on_board:
  "addToLeaderboard
     [\<lparr>name = ''BOB'', wpm = NaN, accuracy = Fin 0, time = Fin 0,
       date = ''10/30/2026 12:00'', wordCount = 1, hasPunctuation = False,
       hasNumbers = False\<rparr>]
     (example_score ''ANA'' 90 99)
   = [\<lparr>name = ''BOB'', wpm = NaN, accuracy = Fin 0, time = Fin 0,
       date = ''10/30/2026 12:00'', wordCount = 1, hasPunctuation = False,
       hasNumbers = False\<rparr>, example_score ''ANA'' 90 99]"
  "\<not> sorted_wrt ranked_before
       (addToLeaderboard
          [\<lparr>name = ''BOB'', wpm = NaN, accuracy = Fin 0, time = Fin 0,
            date = ''10/30/2026 12:00'', wordCount = 1, hasPunctuation = False,
            hasNumbers = False\<rparr>]
          (example_score ''ANA'' 90 99))"
  by (simp_all add: addToLeaderboard_def std_sort_def compareScores_def dne_def dgt_def
      example_score_def ranked_before_def dge_def)

section \<open>Properties of the loader and the writer\<close>

subsection \<open>Positions and fields of a line\<close>

lemma npos_less_modulus: "npos < size_modulus"
  by (simp add: npos_def size_modulus_def)

lemma sz_add_small: "a + b < size_modulus \<Longrightarrow> sz_add a b = a + b"
  by (simp add: sz_add_def)

lemma sz_sub_small:
  assumes "b \<le> a" and "a < size_modulus"
  shows "sz_sub a b = a - b"
proof -
  have e1: "b mod size_modulus = b"
    using assms by simp
  have e2: "a + size_modulus - b = (a - b) + size_modulus"
    using assms by simp
  have e3: "a - b < size_modulus"
    using assms by simp
  show ?thesis
    unfolding sz_sub_def e1 e2 using e3 by simp
qed

lemma bindE_Inr [simp]: "bindE (Inr v) f = f v"
  by (simp add: bindE_def)

lemma bindE_Inl [simp]: "bindE (Inl e) f = Inl e"
  by (simp add: bindE_def)

lemma bindE_return [simp]: "bindE m Inr = m"
  by (cases m) simp_all

lemma try_catch_Inr [simp]: "try_catch (Inr v) h = v"
  by (simp add: try_catch_def)

lemma try_catch_Inl [simp]: "try_catch (Inl e) h = h"
  by (simp add: try_catch_def)

lemma find_char_field:
  assumes "c \<notin> set f"
  shows "find_char (pre @ f @ c # rest) c (length pre) = length pre + length f"
proof -
  have "takeWhile (\<lambda>x. x \<noteq> c) (f @ c # rest) = f"
    using assms by (subst takeWhile_append2) auto
  then show ?thesis
    by (simp add: find_char_def)
qed

lemma find_char_last_field:
  assumes "c \<notin> set f"
  shows "find_char (pre @ f) c (length pre) = npos"
  using assms by (simp add: find_char_def)

lemma substr_field: "substr (pre @ f @ rest) (length pre) (length f) = Inr f"
  by (simp add: substr_def)

lemma substr_last_field: "length f \<le> k \<Longrightarrow> substr (pre @ f) (length pre) k = Inr f"
  by (simp add: substr_def)

lemma three_separators:
  assumes "i1 < i2" and "i2 < i3" and "i3 < length s"
    and "s ! i1 = c" and "s ! i2 = c" and "s ! i3 = c"
  shows "3 \<le> length (filter (\<lambda>x. x = c) s)"
proof -
  have "{i1, i2, i3} \<subseteq> {i. i < length s \<and> s ! i = c}"
    using assms by auto
  then have "card {i1, i2, i3} \<le> card {i. i < length s \<and> s ! i = c}"
    by (intro card_mono) auto
  moreover have "card {i1, i2, i3} = 3"
    using assms by simp
  ultimately show ?thesis
    by (simp add: length_filter_conv_card)
qed

lemma find_char_npos_or_found:
  assumes "length s < npos" and "find_char s c p \<noteq> npos"
  shows "p \<le> find_char s c p \<and> find_char s c p < length s \<and> s ! find_char s c p = c"
proof (cases "c \<in> set (drop p s)")
  case True
  from find_char_found [OF True] show ?thesis by simp
next
  case False
  with assms(2) show ?thesis by (simp add: find_char_def)
qed

lemma load_line_few_separators:
  assumes "length line < npos" and "length (filter (\<lambda>x. x = CHR ''|'') line) < 3"
  shows "load_line sd si line = Inr None"
proof -
  let ?pos1 = "find_char line (CHR ''|'') 0"
  let ?pos2 = "find_char line (CHR ''|'') (sz_add ?pos1 1)"
  let ?pos3 = "find_char line (CHR ''|'') (sz_add ?pos2 1)"
  have none: "\<not> (?pos1 \<noteq> npos \<and> ?pos2 \<noteq> npos \<and> ?pos3 \<noteq> npos)"
  proof
    assume found: "?pos1 \<noteq> npos \<and> ?pos2 \<noteq> npos \<and> ?pos3 \<noteq> npos"
    have b: "length line + 1 < size_modulus"
      using assms(1) by (simp add: npos_def size_modulus_def)
    have 1: "?pos1 < length line" "line ! ?pos1 = CHR ''|''"
      using find_char_npos_or_found [OF assms(1), of "CHR ''|''" 0] found
      by simp_all
    then have s1: "sz_add ?pos1 1 = ?pos1 + 1"
      using b by (intro sz_add_small) simp
    have 2: "?pos1 + 1 \<le> ?pos2" "?pos2 < length line" "line ! ?pos2 = CHR ''|''"
      using find_char_npos_or_found [OF assms(1), of "CHR ''|''" "?pos1 + 1"] found
      unfolding s1 by simp_all
    then have s2: "sz_add ?pos2 1 = ?pos2 + 1"
      using b by (intro sz_add_small) simp
    have 3: "?pos2 + 1 \<le> ?pos3" "?pos3 < length line" "line ! ?pos3 = CHR ''|''"
      using find_char_npos_or_found [OF assms(1), of "CHR ''|''" "?pos2 + 1"] found
      unfolding s2 by simp_all
    have "3 \<le> length (filter (\<lambda>x. x = CHR ''|'') line)"
      using 1 2 3 by (intro three_separators [of ?pos1 ?pos2 ?pos3]) simp_all
    with assms(2) show False by simp
  qed
  show ?thesis
    unfolding load_line_def Let_def by (simp only: none if_False)
qed

lemma load_lines_append:
  "load_lines sd si (before @ rest) =
     bindE (load_lines sd si before) (\<lambda>xs. bindE (load_lines sd si rest) (\<lambda>ys. Inr (xs @ ys)))"
proof (induction before)
  case Nil
  then show ?case by simp
next
  case (Cons l before)
  show ?case
    by (cases "load_line sd si l"; cases "load_lines sd si before"; cases "load_lines sd si rest")
       (simp_all add: Cons split: option.splits)
qed

text \<open>
  Claim C10. A line with fewer than three separators (and, as every \<open>std::string\<close>, shorter
  than \<open>npos\<close>) is passed over: the loop body returns without a record whatever the two
  conversions would do, even if they always threw, and the load gives the same result as
  without the line.
\<close>

theorem short_line_is_ignored:
  assumes "length line < npos" and "length (filter (\<lambda>x. x = CHR ''|'') line) < 3"
  shows "load_line sd si line = Inr None
         \<and> load_lines sd si (before @ line # rest) = load_lines sd si (before @ rest)"
proof -
  have skip: "load_line sd si line = Inr None"
    by (rule load_line_few_separators [OF assms])
  have "load_lines sd si (line # rest) = load_lines sd si rest"
    by (simp add: skip)
  then have "load_lines sd si (before @ line # rest) = load_lines sd si (before @ rest)"
    by (simp only: load_lines_append [of sd si before])
  with skip show ?thesis by simp
qed

subsection \<open>Evaluating the conversions on concrete text\<close>

lemma floor_rat_numeral: "\<lfloor>numeral a / numeral b :: rat\<rfloor> = numeral a div numeral b"
  using floor_divide_of_int_eq [of "numeral a" "numeral b", where ?'a = rat] by simp

lemma ceiling_rat_numeral: "\<lceil>numeral a / numeral b :: rat\<rceil> = - (- numeral a div numeral b)"
  using floor_divide_of_int_eq [of "- numeral a" "numeral b", where ?'a = rat]
  by (simp add: ceiling_def)

lemma char_eq_char_of_iff: "c = char_of (n::nat) \<longleftrightarrow> take_bit 8 n = of_char c"
  using char_of_eq_iff [of n c] by auto

lemmas stod_eval = std_stod_def read_sign_def isspace_def isdigit_def starts_with_ci_def
  toupper_def char_of_eq_iff char_eq_char_of_iff digits_value_def read_exponent_def pow10_def
  DBL_MAX_def DBL_MIN_def

lemmas stoi_eval = std_stoi_def read_sign_def isspace_def isdigit_def digits_value_def

lemmas put_eval = put_magnitude_def dec_exponent_def round_half_even_def strip_zeros_def
  with_point_def pow10_def put_nat.simps ndigits.simps char_of_eq_iff Let_def
  floor_rat_numeral ceiling_rat_numeral std_put_double.simps

text \<open>
  The theorem on a line of two separators, once with conversions that always throw, once
  between two other lines.
\<close>

theorem short_line_is_ignored_witness:
  "length ''BOB|50|90'' < npos \<and> length (filter (\<lambda>x. x = CHR ''|'') ''BOB|50|90'') < 3
   \<and> load_line (\<lambda>s. Inl invalid_argument) (\<lambda>s. Inl invalid_argument) ''BOB|50|90'' = Inr None
   \<and> load_lines std_stod std_stoi [''AL|60.5|99|12'', ''BOB|50|90'', ''CY|70|88|30'']
       = load_lines std_stod std_stoi [''AL|60.5|99|12'', ''CY|70|88|30'']"
proof -
  have h: "length ''BOB|50|90'' < npos" "length (filter (\<lambda>x. x = CHR ''|'') ''BOB|50|90'') < 3"
    by (simp_all add: npos_def)
  from short_line_is_ignored [OF h, of "\<lambda>s. Inl invalid_argument" "\<lambda>s. Inl invalid_argument"]
    short_line_is_ignored [OF h, of std_stod std_stoi "[''AL|60.5|99|12'']" "[''CY|70|88|30'']"] h
  show ?thesis by simp
qed

text \<open>
  Claim C6 as stated, for a line of the three fields \<open>NAME|WPM|ACCURACY\<close>: the line has two
  separators, the loader asks for three, and no record is produced.
\<close>

theorem three_field_line_counterexample:
  "loadLeaderboard std_stod std_stoi (Some (''BOB|50|90'' @ [CHR 0x0A])) = Inr []"
proof -
  have "load_line std_stod std_stoi ''BOB|50|90'' = Inr None"
    by (rule load_line_few_separators) (simp_all add: npos_def)
  then show ?thesis
    by (simp add: loadLeaderboard_def getlines_def)
qed

lemma load_line_four_fields:
  assumes "CHR ''|'' \<notin> set n" and "CHR ''|'' \<notin> set w" and "CHR ''|'' \<notin> set a"
    and "CHR ''|'' \<notin> set t"
    and "length (n @ ''|'' @ w @ ''|'' @ a @ ''|'' @ t) < npos"
  shows "load_line sd si (n @ ''|'' @ w @ ''|'' @ a @ ''|'' @ t) =
           bindE (sd w) (\<lambda>wv. bindE (sd a) (\<lambda>av. bindE (sd t) (\<lambda>tv.
             Inr (Some \<lparr>name = toUpperCase n, wpm = wv, accuracy = av, time = tv,
                       date = ''Unknown'', wordCount = 15, hasPunctuation = False,
                       hasNumbers = False\<rparr>))))"
proof -
  define c where "c = CHR ''|''"
  define line where "line = n @ ''|'' @ w @ ''|'' @ a @ ''|'' @ t"
  define p1 where "p1 = length n"
  define p2 where "p2 = p1 + 1 + length w"
  define p3 where "p3 = p2 + 1 + length a"
  have len: "length line = p3 + 1 + length t"
    by (simp add: line_def p1_def p2_def p3_def)
  have small: "p3 + 1 + length t < npos"
    using assms(5) len by (simp add: line_def)
  have m: "npos < size_modulus" by (rule npos_less_modulus)
  have pos1: "find_char line c 0 = p1"
    using find_char_field [OF assms(1) [folded c_def], of "[]" "w @ ''|'' @ a @ ''|'' @ t"]
    by (simp add: line_def c_def p1_def)
  have add1: "sz_add p1 1 = p1 + 1"
    using small m by (intro sz_add_small) (simp add: p2_def p3_def)
  have pos2: "find_char line c (p1 + 1) = p2"
    using find_char_field [OF assms(2) [folded c_def], of "n @ ''|''" "a @ ''|'' @ t"]
    by (simp add: line_def c_def p1_def p2_def)
  have add2: "sz_add p2 1 = p2 + 1"
    using small m by (intro sz_add_small) (simp add: p3_def)
  have pos3: "find_char line c (p2 + 1) = p3"
    using find_char_field [OF assms(3) [folded c_def], of "n @ ''|'' @ w @ ''|''" t]
    by (simp add: line_def c_def p1_def p2_def p3_def ac_simps)
  have add3: "sz_add p3 1 = p3 + 1"
    using small m by (intro sz_add_small) simp
  have pos4: "find_char line c (p3 + 1) = npos"
    using find_char_last_field [OF assms(4) [folded c_def], of "n @ ''|'' @ w @ ''|'' @ a @ ''|''"]
    by (simp add: line_def c_def p1_def p2_def p3_def ac_simps)
  have found: "p1 \<noteq> npos" "p2 \<noteq> npos" "p3 \<noteq> npos"
    using small by (simp_all add: p2_def p3_def)
  have "sz_sub p2 p1 = 1 + length w" and "sz_sub p3 p2 = 1 + length a"
    using small m by (simp_all add: sz_sub_small p2_def p3_def)
  then have sub2: "sz_sub (sz_sub p2 p1) 1 = length w"
    and sub3: "sz_sub (sz_sub p3 p2) 1 = length a"
    using small m by (simp_all add: sz_sub_small p2_def p3_def)
  have f0: "substr line 0 p1 = Inr n"
    using substr_field [of "[]" n "''|'' @ w @ ''|'' @ a @ ''|'' @ t"]
    by (simp add: line_def p1_def)
  have f1: "substr line (p1 + 1) (length w) = Inr w"
    using substr_field [of "n @ ''|''" w "''|'' @ a @ ''|'' @ t"]
    by (simp add: line_def p1_def)
  have f2: "substr line (p2 + 1) (length a) = Inr a"
    using substr_field [of "n @ ''|'' @ w @ ''|''" a "''|'' @ t"]
    by (simp add: line_def p1_def p2_def ac_simps)
  have f3: "substr line (p3 + 1) npos = Inr t"
    using substr_last_field [of t npos "n @ ''|'' @ w @ ''|'' @ a @ ''|''"] small
    by (simp add: line_def p1_def p2_def p3_def ac_simps)
  have "load_line sd si line =
          parse_fields sd si line p1 p2 p3 npos
            (find_char line c (sz_add npos 1))
            (find_char line c (sz_add (find_char line c (sz_add npos 1)) 1))
            (find_char line c
               (sz_add (find_char line c (sz_add (find_char line c (sz_add npos 1)) 1)) 1))"
    unfolding load_line_def Let_def c_def [symmetric]
    by (simp only: pos1 add1 pos2 add2 pos3 add3 pos4 found simp_thms if_True)
  also have "\<dots> = bindE (sd w) (\<lambda>wv. bindE (sd a) (\<lambda>av. bindE (sd t) (\<lambda>tv.
             Inr (Some \<lparr>name = toUpperCase n, wpm = wv, accuracy = av, time = tv,
                       date = ''Unknown'', wordCount = 15, hasPunctuation = False,
                       hasNumbers = False\<rparr>))))"
    unfolding parse_fields_def
    by (simp only: add1 add2 add3 sub2 sub3 f0 f1 f2 f3 bindE_Inr simp_thms if_False)
  finally show ?thesis
    by (simp only: line_def)
qed

text \<open>
  Claim C6, amended. A line of the four fields \<open>NAME|WPM|ACCURACY|TIME\<close> whose three numbers
  convert gives a record with the name in upper case, the three numbers, the date
  \<open>Unknown\<close>, the word count 15 and both flags false.
\<close>

theorem four_field_line_defaults:
  assumes "CHR ''|'' \<notin> set n" and "CHR ''|'' \<notin> set w" and "CHR ''|'' \<notin> set a"
    and "CHR ''|'' \<notin> set t"
    and "sd w = Inr wv" and "sd a = Inr av" and "sd t = Inr tv"
    and "length (n @ ''|'' @ w @ ''|'' @ a @ ''|'' @ t) < npos"
  shows "load_line sd si (n @ ''|'' @ w @ ''|'' @ a @ ''|'' @ t) =
           Inr (Some \<lparr>name = toUpperCase n, wpm = wv, accuracy = av, time = tv,
                     date = ''Unknown'', wordCount = 15, hasPunctuation = False,
                     hasNumbers = False\<rparr>)"
  by (subst load_line_four_fields [OF assms(1-4,8)]) (simp add: assms(5-7))

text \<open>The theorem on the line \<open>bob|50|90|12\<close>.\<close>

theorem four_field_line_defaults_witness:
  "CHR ''|'' \<notin> set ''bob'' \<and> CHR ''|'' \<notin> set ''50'' \<and> CHR ''|'' \<notin> set ''90''
   \<and> CHR ''|'' \<notin> set ''12''
   \<and> std_stod ''50'' = Inr (Fin 50) \<and> std_stod ''90'' = Inr (Fin 90)
   \<and> std_stod ''12'' = Inr (Fin 12)
   \<and> length (''bob'' @ ''|'' @ ''50'' @ ''|'' @ ''90'' @ ''|'' @ ''12'') < npos
   \<and> load_line std_stod std_stoi ''bob|50|90|12'' =
        Inr (Some \<lparr>name = ''BOB'', wpm = Fin 50, accuracy = Fin 90, time = Fin 12,
                  date = ''Unknown'', wordCount = 15, hasPunctuation = False,
                  hasNumbers = False\<rparr>)"
proof -
  have h: "CHR ''|'' \<notin> set ''bob''" "CHR ''|'' \<notin> set ''50''" "CHR ''|'' \<notin> set ''90''"
    "CHR ''|'' \<notin> set ''12''"
    by simp_all
  have d: "std_stod ''50'' = Inr (Fin 50)" "std_stod ''90'' = Inr (Fin 90)"
    "std_stod ''12'' = Inr (Fin 12)"
    by (simp_all add: stod_eval)
  have l: "length (''bob'' @ ''|'' @ ''50'' @ ''|'' @ ''90'' @ ''|'' @ ''12'') < npos"
    by (simp add: npos_def)
  have u: "toUpperCase ''bob'' = ''BOB''"
    by (simp add: toUpperCase_def toupper_def char_of_eq_iff)
  from four_field_line_defaults [OF h d l, of std_stoi] h d l u
  show ?thesis by simp
qed

text \<open>
  Claim C2 asks that no numeric parse failure aborts the load. The word count and the flags
  are converted inside \<open>try\<close> blocks; the WPM, the accuracy and the time are not. A line
  whose WPM field is \<open>abc\<close> makes \<open>std::stod\<close> throw, and the exception leaves
  \<open>loadLeaderboard\<close>.
\<close>

theorem unparsable_wpm_aborts_load:
  "loadLeaderboard std_stod std_stoi (Some (''BOB|abc|90|10'' @ [CHR 0x0A])) = Inl invalid_argument"
proof -
  have "std_stod ''abc'' = Inl invalid_argument"
    by (simp add: stod_eval)
  then have "load_line std_stod std_stoi ''BOB|abc|90|10'' = Inl invalid_argument"
    using load_line_four_fields [of "''BOB''" "''abc''" "''90''" "''10''" std_stod std_stoi]
    by (simp add: npos_def)
  then show ?thesis
    by (simp add: loadLeaderboard_def getlines_def)
qed

subsection \<open>A line of the newest shape\<close>

lemma load_line_eight_fields:
  assumes "CHR ''|'' \<notin> set f0" and "CHR ''|'' \<notin> set f1" and "CHR ''|'' \<notin> set f2"
    and "CHR ''|'' \<notin> set f3" and "CHR ''|'' \<notin> set f4" and "CHR ''|'' \<notin> set f5"
    and "CHR ''|'' \<notin> set f6"
    and "length (f0 @ ''|'' @ f1 @ ''|'' @ f2 @ ''|'' @ f3 @ ''|'' @ f4 @ ''|'' @ f5 @ ''|'' @ f6 @ ''|'' @ f7) < npos"
  shows "load_line sd si (f0 @ ''|'' @ f1 @ ''|'' @ f2 @ ''|'' @ f3 @ ''|'' @ f4 @ ''|'' @ f5 @ ''|'' @ f6 @ ''|'' @ f7) =
           bindE (sd f1) (\<lambda>w. bindE (sd f2) (\<lambda>a. bindE (sd f3) (\<lambda>t.
             case try_catch
                    (bindE (si f5) (\<lambda>c. bindE (si f6) (\<lambda>p. bindE (si f7) (\<lambda>q.
                       Inr (f4, c, p = 1, q = 1)))))
                    (''Unknown'', 15, False, False)
             of (d, c, p, q) \<Rightarrow>
               Inr (Some \<lparr>name = toUpperCase f0, wpm = w, accuracy = a, time = t, date = d,
                         wordCount = c, hasPunctuation = p, hasNumbers = q\<rparr>))))"
proof -
  define c where "c = CHR ''|''"
  define line where "line = f0 @ ''|'' @ f1 @ ''|'' @ f2 @ ''|'' @ f3 @ ''|'' @ f4 @ ''|'' @ f5 @ ''|'' @ f6 @ ''|'' @ f7"
  define p1 where "p1 = length f0"
  define p2 where "p2 = p1 + 1 + length f1"
  define p3 where "p3 = p2 + 1 + length f2"
  define p4 where "p4 = p3 + 1 + length f3"
  define p5 where "p5 = p4 + 1 + length f4"
  define p6 where "p6 = p5 + 1 + length f5"
  define p7 where "p7 = p6 + 1 + length f6"
  note p_defs = p1_def p2_def p3_def p4_def p5_def p6_def p7_def
  have len: "length line = p7 + 1 + length f7"
    by (simp add: line_def p_defs)
  have small: "p7 + 1 + length f7 < npos"
    using assms(8) len by (simp add: line_def)
  have m: "npos < size_modulus" by (rule npos_less_modulus)
  have pos1: "find_char line c (0) = p1"
    using find_char_field [OF assms(1) [folded c_def], of "[]" "f1 @ ''|'' @ f2 @ ''|'' @ f3 @ ''|'' @ f4 @ ''|'' @ f5 @ ''|'' @ f6 @ ''|'' @ f7"]
    by (simp add: line_def c_def p_defs ac_simps)
  have add1: "sz_add p1 1 = p1 + 1"
    using small m by (intro sz_add_small) (simp add: p_defs)
  have pos2: "find_char line c (p1 + 1) = p2"
    using find_char_field [OF assms(2) [folded c_def], of "f0 @ ''|''" "f2 @ ''|'' @ f3 @ ''|'' @ f4 @ ''|'' @ f5 @ ''|'' @ f6 @ ''|'' @ f7"]
    by (simp add: line_def c_def p_defs ac_simps)
  have add2: "sz_add p2 1 = p2 + 1"
    using small m by (intro sz_add_small) (simp add: p_defs)
  have pos3: "find_char line c (p2 + 1) = p3"
    using find_char_field [OF assms(3) [folded c_def], of "f0 @ ''|'' @ f1 @ ''|''" "f3 @ ''|'' @ f4 @ ''|'' @ f5 @ ''|'' @ f6 @ ''|'' @ f7"]
    by (simp add: line_def c_def p_defs ac_simps)
  have add3: "sz_add p3 1 = p3 + 1"
    using small m by (intro sz_add_small) (simp add: p_defs)
  have pos4: "find_char line c (p3 + 1) = p4"
    using find_char_field [OF assms(4) [folded c_def], of "f0 @ ''|'' @ f1 @ ''|'' @ f2 @ ''|''" "f4 @ ''|'' @ f5 @ ''|'' @ f6 @ ''|'' @ f7"]
    by (simp add: line_def c_def p_defs ac_simps)
  have add4: "sz_add p4 1 = p4 + 1"
    using small m by (intro sz_add_small) (simp add: p_defs)
  have pos5: "find_char line c (p4 + 1) = p5"
    using find_char_field [OF assms(5) [folded c_def], of "f0 @ ''|'' @ f1 @ ''|'' @ f2 @ ''|'' @ f3 @ ''|''" "f5 @ ''|'' @ f6 @ ''|'' @ f7"]
    by (simp add: line_def c_def p_defs ac_simps)
  have add5: "sz_add p5 1 = p5 + 1"
    using small m by (intro sz_add_small) (simp add: p_defs)
  have pos6: "find_char line c (p5 + 1) = p6"
    using find_char_field [OF assms(6) [folded c_def], of "f0 @ ''|'' @ f1 @ ''|'' @ f2 @ ''|'' @ f3 @ ''|'' @ f4 @ ''|''" "f6 @ ''|'' @ f7"]
    by (simp add: line_def c_def p_defs ac_simps)
  have add6: "sz_add p6 1 = p6 + 1"
    using small m by (intro sz_add_small) (simp add: p_defs)
  have pos7: "find_char line c (p6 + 1) = p7"
    using find_char_field [OF assms(7) [folded c_def], of "f0 @ ''|'' @ f1 @ ''|'' @ f2 @ ''|'' @ f3 @ ''|'' @ f4 @ ''|'' @ f5 @ ''|''" "f7"]
    by (simp add: line_def c_def p_defs ac_simps)
  have add7: "sz_add p7 1 = p7 + 1"
    using small m by (intro sz_add_small) (simp add: p_defs)
  have found: "p1 \<noteq> npos" "p2 \<noteq> npos" "p3 \<noteq> npos" "p4 \<noteq> npos" "p5 \<noteq> npos" "p6 \<noteq> npos" "p7 \<noteq> npos"
    using small by (simp_all add: p_defs)
  have "sz_sub p2 p1 = 1 + length f1"
    using small m by (simp add: sz_sub_small p_defs)
  then have sub1: "sz_sub (sz_sub p2 p1) 1 = length f1"
    using small m by (simp add: sz_sub_small p_defs)
  have "sz_sub p3 p2 = 1 + length f2"
    using small m by (simp add: sz_sub_small p_defs)
  then have sub2: "sz_sub (sz_sub p3 p2) 1 = length f2"
    using small m by (simp add: sz_sub_small p_defs)
  have "sz_sub p4 p3 = 1 + length f3"
    using small m by (simp add: sz_sub_small p_defs)
  then have sub3: "sz_sub (sz_sub p4 p3) 1 = length f3"
    using small m by (simp add: sz_sub_small p_defs)
  have "sz_sub p5 p4 = 1 + length f4"
    using small m by (simp add: sz_sub_small p_defs)
  then have sub4: "sz_sub (sz_sub p5 p4) 1 = length f4"
    using small m by (simp add: sz_sub_small p_defs)
  have "sz_sub p6 p5 = 1 + length f5"
    using small m by (simp add: sz_sub_small p_defs)
  then have sub5: "sz_sub (sz_sub p6 p5) 1 = length f5"
    using small m by (simp add: sz_sub_small p_defs)
  have "sz_sub p7 p6 = 1 + length f6"
    using small m by (simp add: sz_sub_small p_defs)
  then have sub6: "sz_sub (sz_sub p7 p6) 1 = length f6"
    using small m by (simp add: sz_sub_small p_defs)
  have fld0: "substr line 0 p1 = Inr f0"
    using substr_field [of "[]" f0 "''|'' @ f1 @ ''|'' @ f2 @ ''|'' @ f3 @ ''|'' @ f4 @ ''|'' @ f5 @ ''|'' @ f6 @ ''|'' @ f7"]
    by (simp add: line_def p_defs)
  have fld1: "substr line (p1 + 1) (length f1) = Inr f1"
    using substr_field [of "f0 @ ''|''" f1 "''|'' @ f2 @ ''|'' @ f3 @ ''|'' @ f4 @ ''|'' @ f5 @ ''|'' @ f6 @ ''|'' @ f7"]
    by (simp add: line_def p_defs ac_simps)
  have fld2: "substr line (p2 + 1) (length f2) = Inr f2"
    using substr_field [of "f0 @ ''|'' @ f1 @ ''|''" f2 "''|'' @ f3 @ ''|'' @ f4 @ ''|'' @ f5 @ ''|'' @ f6 @ ''|'' @ f7"]
    by (simp add: line_def p_defs ac_simps)
  have fld3: "substr line (p3 + 1) (length f3) = Inr f3"
    using substr_field [of "f0 @ ''|'' @ f1 @ ''|'' @ f2 @ ''|''" f3 "''|'' @ f4 @ ''|'' @ f5 @ ''|'' @ f6 @ ''|'' @ f7"]
    by (simp add: line_def p_defs ac_simps)
  have fld4: "substr line (p4 + 1) (length f4) = Inr f4"
    using substr_field [of "f0 @ ''|'' @ f1 @ ''|'' @ f2 @ ''|'' @ f3 @ ''|''" f4 "''|'' @ f5 @ ''|'' @ f6 @ ''|'' @ f7"]
    by (simp add: line_def p_defs ac_simps)
  have fld5: "substr line (p5 + 1) (length f5) = Inr f5"
    using substr_field [of "f0 @ ''|'' @ f1 @ ''|'' @ f2 @ ''|'' @ f3 @ ''|'' @ f4 @ ''|''" f5 "''|'' @ f6 @ ''|'' @ f7"]
    by (simp add: line_def p_defs ac_simps)
  have fld6: "substr line (p6 + 1) (length f6) = Inr f6"
    using substr_field [of "f0 @ ''|'' @ f1 @ ''|'' @ f2 @ ''|'' @ f3 @ ''|'' @ f4 @ ''|'' @ f5 @ ''|''" f6 "''|'' @ f7"]
    by (simp add: line_def p_defs ac_simps)
  have fld7: "substr line (p7 + 1) npos = Inr f7"
    using substr_last_field [of f7 npos "f0 @ ''|'' @ f1 @ ''|'' @ f2 @ ''|'' @ f3 @ ''|'' @ f4 @ ''|'' @ f5 @ ''|'' @ f6 @ ''|''"] small
    by (simp add: line_def p_defs ac_simps)
  have "load_line sd si line = parse_fields sd si line p1 p2 p3 p4 p5 p6 p7"
    unfolding load_line_def Let_def c_def [symmetric]
    by (simp only: pos1 add1 pos2 add2 pos3 add3 pos4 add4 pos5 add5 pos6 add6 pos7 found
        simp_thms if_True)
  also have "\<dots> =
           bindE (sd f1) (\<lambda>w. bindE (sd f2) (\<lambda>a. bindE (sd f3) (\<lambda>t.
             case try_catch
                    (bindE (si f5) (\<lambda>c. bindE (si f6) (\<lambda>p. bindE (si f7) (\<lambda>q.
                       Inr (f4, c, p = 1, q = 1)))))
                    (''Unknown'', 15, False, False)
             of (d, c, p, q) \<Rightarrow>
               Inr (Some \<lparr>name = toUpperCase f0, wpm = w, accuracy = a, time = t, date = d,
                         wordCount = c, hasPunctuation = p, hasNumbers = q\<rparr>))))"
    unfolding parse_fields_def
    by (simp only: add1 add2 add3 add4 add5 add6 add7 sub1 sub2 sub3 sub4 sub5 sub6
        fld0 fld1 fld2 fld3 fld4 fld5 fld6 fld7 found bindE_Inr simp_thms if_True)
  finally show ?thesis
    by (simp only: line_def)
qed

text \<open>
  The two \<open>try\<close> blocks do what the conversions of the first three numbers lack: a word
  count that does not convert gives the defaults, and the load goes on.
\<close>

lemma unparsable_word_count_gives_defaults:
  "load_line std_stod std_stoi ''CY|70|88|30|10/30/2026 12:00|many|1|0'' =
     Inr (Some \<lparr>name = ''CY'', wpm = Fin 70, accuracy = Fin 88, time = Fin 30,
               date = ''Unknown'', wordCount = 15, hasPunctuation = False,
               hasNumbers = False\<rparr>)"
  using load_line_eight_fields [of "''CY''" "''70''" "''88''" "''30''"
      "''10/30/2026 12:00''" "''many''" "''1''" "''0''" std_stod std_stoi]
  by (simp add: npos_def stod_eval stoi_eval toUpperCase_def)

subsection \<open>Saving and loading\<close>

lemma digit_char_no_separator:
  assumes "k < (10::nat)"
  shows "char_of (48 + k) \<noteq> CHR ''|''" and "char_of (48 + k) \<noteq> CHR 0x0A"
proof -
  have "take_bit 8 (48 + k) = 48 + k"
    using assms by (simp add: take_bit_eq_mod)
  then show "char_of (48 + k) \<noteq> CHR ''|''" and "char_of (48 + k) \<noteq> CHR 0x0A"
    using assms by (simp_all add: char_of_eq_iff)
qed

lemma put_nat_no_separator: "no_separator (put_nat n)"
proof (induction n rule: put_nat.induct)
  case (1 n)
  show ?case
  proof (cases "n < 10")
    case True
    then show ?thesis
      using digit_char_no_separator [of n]
      by (subst put_nat.simps) (simp add: no_separator_def)
  next
    case False
    have "n mod 10 < 10" by simp
    then show ?thesis
      using False "1" digit_char_no_separator [of "n mod 10"]
      by (subst put_nat.simps) (simp add: no_separator_def)
  qed
qed

lemma put_int_no_separator: "no_separator (put_int i)"
  using put_nat_no_separator [of "nat i"] put_nat_no_separator [of "nat (- i)"]
  by (simp add: put_int_def no_separator_def)

lemma put_int_flag: "put_int (if b then 1 else 0) = (if b then ''1'' else ''0'')"
  by (simp add: put_int_def put_nat.simps char_of_eq_iff)

lemma getlines_acc_line:
  assumes "CHR 0x0A \<notin> set l"
  shows "getlines_acc acc (l @ CHR 0x0A # rest) = (rev acc @ l) # getlines_acc [] rest"
  using assms by (induction l arbitrary: acc) auto

lemma getlines_line:
  assumes "CHR 0x0A \<notin> set l"
  shows "getlines (l @ CHR 0x0A # rest) = l # getlines rest"
  using getlines_acc_line [OF assms, of "[]" rest] by (simp add: getlines_def)

subsection \<open>Digit strings\<close>

lemma of_char_digit: "k < 10 \<Longrightarrow> (of_char (char_of (48 + k :: nat)) :: nat) = 48 + k"
  by simp

lemma isdigit_digit_char: "k < 10 \<Longrightarrow> isdigit (char_of (48 + k :: nat))"
  by (simp add: isdigit_def)

lemma all_digits_append [simp]: "all_digits (xs @ ys) \<longleftrightarrow> all_digits xs \<and> all_digits ys"
  by (auto simp: all_digits_def)

lemma put_nat_nonempty: "put_nat n \<noteq> []"
  by (subst put_nat.simps) simp

lemma all_digits_put_nat: "all_digits (put_nat n)"
proof (induction n rule: put_nat.induct)
  case (1 n)
  show ?case
  proof (cases "n < 10")
    case True
    then show ?thesis
      by (subst put_nat.simps) (simp add: all_digits_def isdigit_digit_char)
  next
    case False
    have "isdigit (char_of (48 + n mod 10))"
      by (rule isdigit_digit_char) simp
    with False "1" show ?thesis
      by (subst put_nat.simps) (simp add: all_digits_def)
  qed
qed

lemma digits_value_foldl:
  "foldl (\<lambda>v c. 10 * v + ((of_char c :: nat) - 48)) a ds
     = a * 10 ^ length ds + digits_value ds"
proof (induction ds arbitrary: a)
  case Nil
  then show ?case by (simp add: digits_value_def)
next
  case (Cons c ds)
  have "foldl (\<lambda>v c. 10 * v + ((of_char c :: nat) - 48)) a (c # ds)
          = (10 * a + ((of_char c :: nat) - 48)) * 10 ^ length ds + digits_value ds"
    by (simp add: Cons)
  moreover have "digits_value (c # ds) = ((of_char c :: nat) - 48) * 10 ^ length ds + digits_value ds"
    by (simp add: digits_value_def Cons [of "of_char c - 48"])
  ultimately show ?case
    by (simp add: algebra_simps)
qed

lemma digits_value_append:
  "digits_value (xs @ ys) = digits_value xs * 10 ^ length ys + digits_value ys"
  using digits_value_foldl [of "digits_value xs" ys] by (simp add: digits_value_def)

lemma digits_value_zeros: "digits_value (replicate k (CHR ''0'')) = 0"
  by (induction k) (simp_all add: digits_value_def)

lemma digits_value_put_nat: "digits_value (put_nat n) = n"
proof (induction n rule: put_nat.induct)
  case (1 n)
  show ?case
  proof (cases "n < 10")
    case True
    then show ?thesis
      by (subst put_nat.simps) (simp add: digits_value_def)
  next
    case False
    have "digits_value [char_of (48 + n mod 10)] = n mod 10"
      by (simp add: digits_value_def)
    with False "1" show ?thesis
      by (subst put_nat.simps) (simp add: digits_value_append)
  qed
qed

lemma length_put_nat: "length (put_nat n) = ndigits n"
proof (induction n rule: put_nat.induct)
  case (1 n)
  show ?case
  proof (cases "n < 10")
    case True
    then show ?thesis
      by (subst put_nat.simps, subst ndigits.simps) simp
  next
    case False
    with "1" show ?thesis
      by (subst put_nat.simps, subst ndigits.simps) simp
  qed
qed

lemma ndigits_upper: "n < 10 ^ ndigits n"
proof (induction n rule: ndigits.induct)
  case (1 n)
  show ?case
  proof (cases "n < 10")
    case True
    then show ?thesis by (subst ndigits.simps) simp
  next
    case False
    with "1" have "n div 10 < 10 ^ ndigits (n div 10)" by simp
    then have "n < 10 * 10 ^ ndigits (n div 10)"
      by arith
    with False show ?thesis by (subst ndigits.simps) simp
  qed
qed

lemma ndigits_lower: "1 \<le> n \<Longrightarrow> 10 ^ (ndigits n - 1) \<le> n"
proof (induction n rule: ndigits.induct)
  case (1 n)
  show ?case
  proof (cases "n < 10")
    case True
    with "1.prems" show ?thesis by (subst ndigits.simps) simp
  next
    case False
    then have "1 \<le> n div 10" by simp
    with "1.IH" False have "10 ^ (ndigits (n div 10) - 1) \<le> n div 10" by simp
    then have le: "10 * 10 ^ (ndigits (n div 10) - 1) \<le> n"
      by arith
    have "1 \<le> ndigits (n div 10)"
      by (subst ndigits.simps) simp
    then obtain k where k: "ndigits (n div 10) = Suc k"
      by (cases "ndigits (n div 10)") simp_all
    with le have "10 ^ ndigits (n div 10) \<le> n"
      by simp
    with False show ?thesis by (subst ndigits.simps) simp
  qed
qed

lemma ndigits_six: "100000 \<le> n \<Longrightarrow> n < 1000000 \<Longrightarrow> ndigits n = 6"
proof -
  assume a: "100000 \<le> n" "n < 1000000"
  have "(10::nat) ^ (ndigits n - 1) < 10 ^ 6"
    using ndigits_lower [of n] a by simp
  then have u: "ndigits n - 1 < 6"
    by (simp only: power_strict_increasing_iff [of 10] one_less_numeral_iff semiring_norm)
  have "(10::nat) ^ 5 < 10 ^ ndigits n"
    using ndigits_upper [of n] a by simp
  then have l: "5 < ndigits n"
    by (simp only: power_strict_increasing_iff [of 10] one_less_numeral_iff semiring_norm)
  from u l show ?thesis by simp
qed

lemma takeWhile_same_replicate:
  "takeWhile (\<lambda>c. c = x) xs = replicate (length (takeWhile (\<lambda>c. c = x) xs)) x"
  by (induction xs) auto

lemma strip_zeros_decomp:
  "ds = strip_zeros ds @ replicate (length ds - length (strip_zeros ds)) (CHR ''0'')"
proof -
  define z where "z = takeWhile (\<lambda>c. c = CHR ''0'') (rev ds)"
  have z: "z = replicate (length z) (CHR ''0'')"
    unfolding z_def by (rule takeWhile_same_replicate)
  have "rev ds = z @ dropWhile (\<lambda>c. c = CHR ''0'') (rev ds)"
    by (simp add: z_def)
  then have "rev (rev ds) = rev (z @ dropWhile (\<lambda>c. c = CHR ''0'') (rev ds))"
    by (rule arg_cong)
  then have split: "ds = strip_zeros ds @ rev z"
    by (simp add: strip_zeros_def)
  have "rev z = rev (replicate (length z) (CHR ''0''))"
    using z by (rule arg_cong)
  then have rz: "rev z = replicate (length z) (CHR ''0'')"
    by simp
  have "length ds = length (strip_zeros ds) + length z"
    using arg_cong [OF split, of length] by simp
  then have "length z = length ds - length (strip_zeros ds)"
    by simp
  with split rz show ?thesis by simp
qed

lemma all_digits_strip_zeros: "all_digits ds \<Longrightarrow> all_digits (strip_zeros ds)"
proof -
  assume a: "all_digits ds"
  have "all_digits (strip_zeros ds @ replicate (length ds - length (strip_zeros ds)) (CHR ''0''))"
    using a by (subst (asm) strip_zeros_decomp [of ds])
  then show ?thesis by simp
qed

lemma digits_value_strip:
  "digits_value (ip @ ds) =
     digits_value (ip @ strip_zeros ds) * 10 ^ (length ds - length (strip_zeros ds))"
proof -
  have "ip @ ds = (ip @ strip_zeros ds) @ replicate (length ds - length (strip_zeros ds)) (CHR ''0'')"
    using strip_zeros_decomp [of ds] by simp
  then show ?thesis
    by (simp only: digits_value_append digits_value_zeros length_replicate add_0_right)
qed

lemma length_strip_zeros: "length (strip_zeros ds) \<le> length ds"
  using length_dropWhile_le [of "\<lambda>c. c = CHR ''0''" "rev ds"] by (simp add: strip_zeros_def)

subsection \<open>Reading a decimal text\<close>

lemma digit_char_facts:
  assumes "isdigit d"
  shows "\<not> isspace d" and "d \<noteq> CHR ''-''" and "d \<noteq> CHR ''+''" and "d \<noteq> CHR ''.''"
    and "d \<noteq> CHR ''e''" and "d \<noteq> CHR ''E''" and "toupper d = d"
    and "d \<noteq> CHR ''I''" and "d \<noteq> CHR ''N''" and "d \<noteq> CHR ''|''" and "d \<noteq> CHR 0x0A"
  using assms by (auto simp: isdigit_def isspace_def toupper_def)

lemma toupper_i_n: "toupper (CHR ''i'') = CHR ''I''" "toupper (CHR ''n'') = CHR ''N''"
  by (simp_all add: toupper_def char_of_eq_iff)

lemma takeWhile_digits:
  assumes "all_digits ip" and "tl_txt = [] \<or> \<not> isdigit (hd tl_txt)"
  shows "takeWhile isdigit (ip @ tl_txt) = ip"
proof -
  have "takeWhile isdigit tl_txt = []"
    using assms(2) by (cases tl_txt) auto
  moreover have "takeWhile isdigit (ip @ tl_txt) = ip @ takeWhile isdigit tl_txt"
    using assms(1) by (intro takeWhile_append2) (simp add: all_digits_def)
  ultimately show ?thesis by simp
qed

lemma std_stod_decimal:
  assumes "ip \<noteq> []" and "all_digits ip" and "all_digits fp"
    and "rest = [] \<or> hd rest = CHR ''e''"
  shows "std_stod ((if neg then ''-'' else []) @ ip
                     @ (if fp = [] then [] else CHR ''.'' # fp) @ rest) =
           (if of_nat (digits_value (ip @ fp)) * pow10 (read_exponent rest - int (length fp))
                 > DBL_MAX
               \<or> (of_nat (digits_value (ip @ fp))
                     * pow10 (read_exponent rest - int (length fp)) \<noteq> 0
                  \<and> of_nat (digits_value (ip @ fp))
                     * pow10 (read_exponent rest - int (length fp)) < DBL_MIN)
            then Inl out_of_range
            else Inr (Fin (if neg
                           then - (of_nat (digits_value (ip @ fp))
                                    * pow10 (read_exponent rest - int (length fp)))
                           else of_nat (digits_value (ip @ fp))
                                    * pow10 (read_exponent rest - int (length fp)))))"
    (is "std_stod ?tx = ?res")
proof -
  define pt where "pt = (if fp = [] then [] else CHR ''.'' # fp)"
  define tx where "tx = ip @ pt @ rest"
  define pre where "pre = (if neg then ''-'' else [])"
  obtain d ip' where ip: "ip = d # ip'"
    using assms(1) by (cases ip) auto
  have d: "isdigit d"
    using assms(2) by (simp add: ip all_digits_def)
  have tx: "tx = d # ip' @ pt @ rest"
    by (simp add: tx_def ip)
  have "\<not> isspace (CHR ''-'')"
    by (simp add: isspace_def)
  then have s1: "dropWhile isspace (pre @ tx) = pre @ tx"
    using digit_char_facts(1) [OF d] by (cases neg) (simp_all add: tx pre_def)
  have s2: "read_sign (pre @ tx) = (neg, tx)"
    using digit_char_facts(2,3) [OF d] by (simp add: tx read_sign_def pre_def)
  have s3: "\<not> starts_with_ci ''inf'' tx" "\<not> starts_with_ci ''nan'' tx"
    using digit_char_facts(7,8,9) [OF d]
    by (simp_all add: tx starts_with_ci_def toupper_i_n)
  have not_digit_rest: "rest = [] \<or> \<not> isdigit (hd rest)"
    using assms(4) by (auto simp: isdigit_def)
  have not_digit_tail: "pt @ rest = [] \<or> \<not> isdigit (hd (pt @ rest))"
    using not_digit_rest by (auto simp: pt_def isdigit_def)
  have s4: "takeWhile isdigit tx = ip"
    unfolding tx_def by (rule takeWhile_digits [OF assms(2) not_digit_tail])
  have s5: "drop (length ip) tx = pt @ rest"
    by (simp add: tx_def)
  have s6: "(case pt @ rest of c # cs \<Rightarrow> (if c = CHR ''.'' then takeWhile isdigit cs else [])
              | [] \<Rightarrow> []) = fp"
  proof (cases "fp = []")
    case True
    then show ?thesis
      using assms(4) by (cases rest) (auto simp: pt_def)
  next
    case False
    then show ?thesis
      using takeWhile_digits [OF assms(3) not_digit_rest] by (simp add: pt_def)
  qed
  have s7: "(case pt @ rest of c # cs \<Rightarrow> (if c = CHR ''.'' then drop (length fp) cs else pt @ rest)
              | [] \<Rightarrow> []) = rest"
  proof (cases "fp = []")
    case True
    then show ?thesis
      using assms(4) by (cases rest) (auto simp: pt_def)
  next
    case False
    then show ?thesis
      by (simp add: pt_def)
  qed
  have ne: "\<not> (ip = [] \<and> fp = [])"
    using assms(1) by simp
  have "std_stod (pre @ tx) = ?res"
    unfolding std_stod_def s1 s2
    by (simp only: Let_def case_prod_conv s3 s4 s5 s6 s7 ne if_False)
  then show ?thesis
    by (simp only: tx_def pt_def pre_def)
qed

lemma read_exponent_Nil: "read_exponent [] = 0"
  by (simp add: read_exponent_def)

lemma read_exponent_text:
  assumes "all_digits eds" and "eds \<noteq> []"
  shows "read_exponent (CHR ''e'' # (if neg then ''-'' else ''+'') @ eds) =
           (if neg then - int (digits_value eds) else int (digits_value eds))"
proof -
  have t: "takeWhile isdigit eds = eds"
    using takeWhile_digits [OF assms(1), of "[]"] by simp
  obtain d eds' where e: "eds = d # eds'"
    using assms(2) by (cases eds) auto
  have "isdigit d"
    using assms(1) by (simp add: e all_digits_def)
  then have "d \<noteq> CHR ''-''" "d \<noteq> CHR ''+''"
    using digit_char_facts(2,3) by blast+
  then have s: "read_sign ((if neg then ''-'' else ''+'') @ eds) = (neg, eds)"
    by (simp add: read_sign_def e)
  show ?thesis
    using assms(2) by (simp add: read_exponent_def s t)
qed

subsection \<open>Powers of ten\<close>

lemma pow10_powi: "pow10 e = power_int 10 e"
  by (simp add: pow10_def power_int_def power_one_over inverse_eq_divide)

lemma pow10_nat: "pow10 (int k) = 10 ^ k"
  by (simp add: pow10_def)

lemma pow10_neg_nat: "pow10 (- int k) = 1 / 10 ^ k"
  by (simp add: pow10_powi power_int_minus inverse_eq_divide)

lemma pow10_add: "pow10 (a + b) = pow10 a * pow10 b"
  by (simp add: pow10_powi power_int_add)

lemma pow10_pos: "0 < pow10 e"
  by (simp add: pow10_powi zero_less_power_int)

lemma pow10_diff_cancel: "pow10 e * pow10 (d - e) = pow10 d"
  using pow10_add [of e "d - e"] by simp

subsection \<open>The decimal exponent and the six digits\<close>

lemma dec_exponent_bounds:
  assumes "0 < a"
  shows "pow10 (dec_exponent a) \<le> a" and "a < pow10 (dec_exponent a + 1)"
proof -
  have "pow10 (dec_exponent a) \<le> a \<and> a < pow10 (dec_exponent a + 1)"
  proof (cases "1 \<le> a")
    case True
    define k where "k = nat \<lfloor>a\<rfloor>"
    have fl: "1 \<le> \<lfloor>a\<rfloor>"
      using True by (simp add: le_floor_iff)
    then have k1: "1 \<le> k" and ik: "int k = \<lfloor>a\<rfloor>"
      unfolding k_def by linarith+
    have x: "dec_exponent a = int (ndigits k) - 1"
      using True by (simp add: dec_exponent_def k_def)
    have nd: "1 \<le> ndigits k"
      by (subst ndigits.simps) simp
    then have x': "dec_exponent a = int (ndigits k - 1)"
      using x by simp
    have x1: "dec_exponent a + 1 = int (ndigits k)"
      using x by simp
    have "(of_nat (10 ^ (ndigits k - 1)) :: rat) \<le> of_nat k"
      using ndigits_lower [OF k1] by (simp only: of_nat_le_iff)
    moreover have "(of_nat k :: rat) = of_int \<lfloor>a\<rfloor>"
      using ik by (metis of_int_of_nat_eq)
    moreover have "of_int \<lfloor>a\<rfloor> \<le> a"
      by (rule of_int_floor_le)
    ultimately have "(of_nat (10 ^ (ndigits k - 1)) :: rat) \<le> a"
      by linarith
    then have lower: "pow10 (dec_exponent a) \<le> a"
      by (simp add: x' pow10_nat)
    have "k + 1 \<le> 10 ^ ndigits k"
      using ndigits_upper [of k] by simp
    then have "(of_nat (k + 1) :: rat) \<le> of_nat (10 ^ ndigits k)"
      by (simp only: of_nat_le_iff)
    moreover have "a < of_int \<lfloor>a\<rfloor> + 1"
      by linarith
    moreover have "(of_nat (k + 1) :: rat) = of_int \<lfloor>a\<rfloor> + 1"
      using \<open>(of_nat k :: rat) = of_int \<lfloor>a\<rfloor>\<close> by simp
    ultimately have "a < (of_nat (10 ^ ndigits k) :: rat)"
      by linarith
    then have upper: "a < pow10 (dec_exponent a + 1)"
      by (simp add: x1 pow10_nat)
    from lower upper show ?thesis ..
  next
    case False
    define b where "b = 1 / a"
    define k where "k = nat (\<lceil>b\<rceil> - 1)"
    have b1: "1 < b"
      using False assms by (simp add: b_def)
    then have "2 \<le> \<lceil>b\<rceil>"
      by (simp add: le_ceiling_iff)
    then have k1: "1 \<le> k" and ik: "int k = \<lceil>b\<rceil> - 1"
      unfolding k_def by linarith+
    have kq: "(of_nat k :: rat) = of_int \<lceil>b\<rceil> - 1"
      using ik by (metis of_int_of_nat_eq of_int_diff of_int_1)
    have x: "dec_exponent a = - int (ndigits k)"
      using False by (simp add: dec_exponent_def k_def b_def)
    have nd: "1 \<le> ndigits k"
      by (subst ndigits.simps) simp
    then have x1: "dec_exponent a + 1 = - int (ndigits k - 1)"
      using x by simp
    have A: "(of_nat (10 ^ (ndigits k - 1)) :: rat) \<le> of_nat k"
      using ndigits_lower [OF k1] by (simp only: of_nat_le_iff)
    have B: "of_int \<lceil>b\<rceil> - 1 < b"
      by linarith
    have "(of_nat (10 ^ (ndigits k - 1)) :: rat) < b"
      using A B kq by linarith
    then have lo: "10 ^ (ndigits k - 1) < b"
      by simp
    have "k + 1 \<le> 10 ^ ndigits k"
      using ndigits_upper [of k] by simp
    then have C: "(of_nat (k + 1) :: rat) \<le> of_nat (10 ^ ndigits k)"
      by (simp only: of_nat_le_iff)
    have D: "b \<le> of_int \<lceil>b\<rceil>"
      by (rule le_of_int_ceiling)
    have E: "(of_nat (k + 1) :: rat) = of_nat k + 1"
      by simp
    have "b \<le> (of_nat (10 ^ ndigits k) :: rat)"
      using C D E kq by linarith
    then have hi: "b \<le> 10 ^ ndigits k"
      by simp
    have bpos: "0 < b" using b1 by simp
    have a: "a = 1 / b" by (simp add: b_def)
    have "1 / 10 ^ ndigits k \<le> 1 / b"
      using hi bpos by (simp add: frac_le)
    then have "1 / 10 ^ ndigits k \<le> a"
      by (simp only: a [symmetric])
    then have lower: "pow10 (dec_exponent a) \<le> a"
      by (simp only: x pow10_neg_nat)
    have "1 / b < 1 / 10 ^ (ndigits k - 1)"
      using lo by (simp add: frac_less2)
    then have "a < 1 / 10 ^ (ndigits k - 1)"
      by (simp only: a [symmetric])
    then have upper: "a < pow10 (dec_exponent a + 1)"
      by (simp only: x1 pow10_neg_nat)
    from lower upper show ?thesis ..
  qed
  then show "pow10 (dec_exponent a) \<le> a" and "a < pow10 (dec_exponent a + 1)"
    by simp_all
qed

lemma round_half_even_between:
  shows "\<lfloor>t\<rfloor> \<le> round_half_even t" and "round_half_even t \<le> \<lfloor>t\<rfloor> + 1"
  by (simp_all add: round_half_even_def Let_def)

lemma six_digit_mantissa:
  assumes "0 < a"
  shows "100000 \<le> round_half_even (a * pow10 (5 - dec_exponent a))"
    and "round_half_even (a * pow10 (5 - dec_exponent a)) \<le> 1000000"
proof -
  define t where "t = a * pow10 (5 - dec_exponent a)"
  have p: "0 < pow10 (5 - dec_exponent a)" by (rule pow10_pos)
  have "pow10 (dec_exponent a) * pow10 (5 - dec_exponent a) \<le> t"
    unfolding t_def using dec_exponent_bounds(1) [OF assms] p by (simp only: mult_le_cancel_right_pos)
  then have lo: "100000 \<le> t"
    using pow10_nat [of 5] by (simp add: pow10_diff_cancel)
  have "t < pow10 (dec_exponent a + 1) * pow10 (5 - dec_exponent a)"
    unfolding t_def using dec_exponent_bounds(2) [OF assms] p by (simp only: mult_less_cancel_right_pos)
  moreover have "pow10 (dec_exponent a + 1) * pow10 (5 - dec_exponent a) = pow10 6"
    using pow10_add [of "dec_exponent a + 1" "5 - dec_exponent a"] by simp
  ultimately have hi: "t < 1000000"
    using pow10_nat [of 6] by simp
  have f1: "100000 \<le> \<lfloor>t\<rfloor>"
    using lo by (simp add: le_floor_iff)
  have f2: "\<lfloor>t\<rfloor> < 1000000"
    using hi by (simp add: floor_less_iff)
  have "100000 \<le> round_half_even t"
    using f1 round_half_even_between(1) [of t] by linarith
  moreover have "round_half_even t \<le> 1000000"
    using f2 round_half_even_between(2) [of t] by linarith
  ultimately show "100000 \<le> round_half_even (a * pow10 (5 - dec_exponent a))"
    and "round_half_even (a * pow10 (5 - dec_exponent a)) \<le> 1000000"
    unfolding t_def by blast+
qed

lemma std_stod_decimal_in_range:
  assumes "ip \<noteq> []" and "all_digits ip" and "all_digits fp"
    and "rest = [] \<or> hd rest = CHR ''e''"
    and "v = of_nat (digits_value (ip @ fp)) * pow10 (read_exponent rest - int (length fp))"
    and "DBL_MIN \<le> v" and "v \<le> DBL_MAX"
  shows "std_stod ((if neg then ''-'' else []) @ ip
                     @ (if fp = [] then [] else CHR ''.'' # fp) @ rest) =
           Inr (Fin (if neg then - v else v))"
proof -
  note d = std_stod_decimal [OF assms(1-4), of neg, folded assms(5)]
  have "0 < DBL_MIN"
    by (simp add: DBL_MIN_def)
  then have "\<not> (v > DBL_MAX \<or> (v \<noteq> 0 \<and> v < DBL_MIN))"
    using assms(6,7) by auto
  then show ?thesis
    unfolding d by (simp only: if_False)
qed

lemma std_stod_with_point:
  assumes "ip \<noteq> []" and "all_digits ip" and "all_digits fp"
    and "rest = [] \<or> hd rest = CHR ''e''"
    and "v = of_nat (digits_value (ip @ fp)) * pow10 (read_exponent rest - int (length fp))"
    and "DBL_MIN \<le> v" and "v \<le> DBL_MAX"
  shows "std_stod ((if neg then ''-'' else []) @ with_point ip fp @ rest) =
           Inr (Fin (if neg then - v else v))"
proof -
  define sfp where "sfp = strip_zeros fp"
  define d where "d = length fp - length sfp"
  define e where "e = read_exponent rest"
  have len: "length sfp \<le> length fp"
    unfolding sfp_def by (rule length_strip_zeros)
  have dv: "digits_value (ip @ fp) = digits_value (ip @ sfp) * 10 ^ d"
    unfolding sfp_def d_def by (rule digits_value_strip)
  have "e - int (length sfp) = int d + (e - int (length fp))"
    using len by (simp add: d_def)
  then have "pow10 (e - int (length sfp)) = pow10 (int d) * pow10 (e - int (length fp))"
    by (simp only: pow10_add)
  then have p: "pow10 (e - int (length sfp)) = 10 ^ d * pow10 (e - int (length fp))"
    by (simp only: pow10_nat)
  have v: "v = of_nat (digits_value (ip @ sfp)) * pow10 (read_exponent rest - int (length sfp))"
    unfolding assms(5) e_def [symmetric] p dv by simp
  have s: "all_digits sfp"
    unfolding sfp_def by (rule all_digits_strip_zeros [OF assms(3)])
  have wp: "with_point ip fp @ rest = ip @ (if sfp = [] then [] else CHR ''.'' # sfp) @ rest"
    by (simp add: with_point_def sfp_def)
  show ?thesis
    unfolding wp by (rule std_stod_decimal_in_range [OF assms(1,2) s assms(4) v assms(6,7)])
qed

lemma put_magnitude_digits:
  assumes "0 < a"
  obtains m x where "100000 \<le> m" and "m < 1000000"
    and "of_nat m * pow10 (x - 5) = round6 a"
    and "put_magnitude a =
           (if x < - 4 \<or> x \<ge> 6
            then with_point (take 1 (put_nat m)) (drop 1 (put_nat m)) @ ''e''
                 @ (if x < 0 then ''-'' else ''+'') @ (if \<bar>x\<bar> < 10 then ''0'' else [])
                 @ put_nat (nat \<bar>x\<bar>)
            else if x \<ge> 0
              then with_point (take (nat x + 1) (put_nat m)) (drop (nat x + 1) (put_nat m))
              else with_point ''0'' (replicate (nat (- x - 1)) (CHR ''0'') @ put_nat m))"
proof -
  define x0 where "x0 = dec_exponent a"
  define r where "r = round_half_even (a * pow10 (5 - x0))"
  define m0 where "m0 = nat r"
  define m where "m = (if m0 \<ge> 1000000 then m0 div 10 else m0)"
  define x where "x = (if m0 \<ge> 1000000 then x0 + 1 else x0)"
  have r: "100000 \<le> r" "r \<le> 1000000"
    unfolding r_def x0_def by (rule six_digit_mantissa [OF assms])+
  then have m0: "100000 \<le> m0" "m0 \<le> 1000000" and rm: "r = int m0"
    unfolding m0_def by linarith+
  have lo: "100000 \<le> m" and hi: "m < 1000000"
    using m0 by (simp_all add: m_def)
  have r6: "round6 a = of_nat m0 * pow10 (x0 - 5)"
    unfolding round6_def x0_def [symmetric] r_def [symmetric] rm by simp
  have val: "of_nat m * pow10 (x - 5) = round6 a"
  proof (cases "m0 \<ge> 1000000")
    case True
    then have e: "m0 = 1000000" using m0 by simp
    have "pow10 (x0 + 1 - 5) = pow10 (int 1) * pow10 (x0 - 5)"
      using pow10_add [of "int 1" "x0 - 5"] by (simp add: ac_simps)
    then have "pow10 (x0 + 1 - 5) = 10 * pow10 (x0 - 5)"
      by (simp only: pow10_nat power_one_right)
    then show ?thesis
      unfolding r6 by (simp add: m_def x_def e)
  next
    case False
    then show ?thesis
      unfolding r6 by (simp add: m_def x_def)
  qed
  have fmt: "put_magnitude a =
           (if x < - 4 \<or> x \<ge> 6
            then with_point (take 1 (put_nat m)) (drop 1 (put_nat m)) @ ''e''
                 @ (if x < 0 then ''-'' else ''+'') @ (if \<bar>x\<bar> < 10 then ''0'' else [])
                 @ put_nat (nat \<bar>x\<bar>)
            else if x \<ge> 0
              then with_point (take (nat x + 1) (put_nat m)) (drop (nat x + 1) (put_nat m))
              else with_point ''0'' (replicate (nat (- x - 1)) (CHR ''0'') @ put_nat m))"
    unfolding put_magnitude_def Let_def m_def x_def m0_def r_def x0_def by (rule refl)
  from lo hi val fmt show ?thesis by (rule that)
qed

subsection \<open>Reading what the output operator printed\<close>

lemma six_digit_text:
  assumes "100000 \<le> m" and "m < 1000000"
  shows "length (put_nat m) = 6"
  using ndigits_six [OF assms] by (simp only: length_put_nat)

lemma all_digits_take_drop: "all_digits ds \<Longrightarrow> all_digits (take n ds) \<and> all_digits (drop n ds)"
  using all_digits_append [of "take n ds" "drop n ds"] by (simp only: append_take_drop_id)

lemma digits_value_take_drop: "digits_value (take n ds @ drop n ds) = digits_value ds"
  by (simp only: append_take_drop_id)

lemma all_digits_zero: "all_digits ''0''" and all_digits_Nil: "all_digits []"
  by (simp_all add: all_digits_def isdigit_def)

lemma digits_value_leading_zero: "digits_value (CHR ''0'' # ds) = digits_value ds"
  using digits_value_append [of "''0''" ds] by (simp add: digits_value_def)

lemma read_exponent_printed:
  "read_exponent (''e'' @ (if x < 0 then ''-'' else ''+'') @ (if \<bar>x\<bar> < 10 then ''0'' else [])
                  @ put_nat (nat \<bar>x\<bar>)) = x"
proof -
  define eds where "eds = (if \<bar>x\<bar> < 10 then ''0'' else []) @ put_nat (nat \<bar>x\<bar>)"
  have a: "all_digits eds"
    by (simp add: eds_def all_digits_zero all_digits_Nil all_digits_put_nat)
  have n: "eds \<noteq> []"
    by (simp add: eds_def put_nat_nonempty)
  have v: "digits_value eds = nat \<bar>x\<bar>"
    by (simp add: eds_def digits_value_leading_zero digits_value_put_nat)
  have "read_exponent (CHR ''e'' # (if x < 0 then ''-'' else ''+'') @ eds) = x"
    unfolding read_exponent_text [OF a n, of "x < 0"] v by simp
  then show ?thesis
    by (simp only: eds_def append_Cons append_Nil)
qed

lemma std_stod_put_magnitude:
  assumes "0 < a" and "DBL_MIN \<le> round6 a" and "round6 a \<le> DBL_MAX"
  shows "std_stod ((if neg then ''-'' else []) @ put_magnitude a) =
           Inr (Fin (if neg then - round6 a else round6 a))"
proof -
  obtain m x where lo: "100000 \<le> m" and hi: "m < 1000000"
    and val: "of_nat m * pow10 (x - 5) = round6 a"
    and fmt: "put_magnitude a =
           (if x < - 4 \<or> x \<ge> 6
            then with_point (take 1 (put_nat m)) (drop 1 (put_nat m)) @ ''e''
                 @ (if x < 0 then ''-'' else ''+'') @ (if \<bar>x\<bar> < 10 then ''0'' else [])
                 @ put_nat (nat \<bar>x\<bar>)
            else if x \<ge> 0
              then with_point (take (nat x + 1) (put_nat m)) (drop (nat x + 1) (put_nat m))
              else with_point ''0'' (replicate (nat (- x - 1)) (CHR ''0'') @ put_nat m))"
    by (rule put_magnitude_digits [OF assms(1)])
  define ds where "ds = put_nat m"
  have len: "length ds = 6"
    unfolding ds_def by (rule six_digit_text [OF lo hi])
  have dig: "all_digits ds"
    unfolding ds_def by (rule all_digits_put_nat)
  have dv: "digits_value ds = m"
    unfolding ds_def by (rule digits_value_put_nat)
  consider (sci) "x < - 4 \<or> x \<ge> 6" | (fixed) "0 \<le> x" "x < 6" | (small) "- 4 \<le> x" "x < 0"
    by linarith
  then show ?thesis
  proof cases
    case sci
    define rest where "rest = ''e'' @ (if x < 0 then ''-'' else ''+'')
                                @ (if \<bar>x\<bar> < 10 then ''0'' else []) @ put_nat (nat \<bar>x\<bar>)"
    have f: "put_magnitude a = with_point (take 1 ds) (drop 1 ds) @ rest"
      using sci by (simp only: fmt ds_def rest_def if_True)
    have i: "take 1 ds \<noteq> []"
      using len by (cases ds) simp_all
    have r: "rest = [] \<or> hd rest = CHR ''e''"
      by (simp add: rest_def)
    have e: "read_exponent rest = x"
      unfolding rest_def by (rule read_exponent_printed)
    have l: "int (length (drop 1 ds)) = 5"
      using len by simp
    have v: "round6 a = of_nat (digits_value (take 1 ds @ drop 1 ds))
                          * pow10 (read_exponent rest - int (length (drop 1 ds)))"
      unfolding digits_value_take_drop dv e l val ..
    show ?thesis
      unfolding f
      by (rule std_stod_with_point [OF i all_digits_take_drop [OF dig, THEN conjunct1]
            all_digits_take_drop [OF dig, THEN conjunct2] r v assms(2,3)])
  next
    case fixed
    define k where "k = nat x + 1"
    have f: "put_magnitude a = with_point (take k ds) (drop k ds) @ []"
      using fixed by (simp add: fmt ds_def k_def)
    have i: "take k ds \<noteq> []"
      using len by (cases ds) (simp_all add: k_def)
    have r: "([]::string) = [] \<or> hd ([]::string) = CHR ''e''"
      by simp
    have l: "0 - int (length (drop k ds)) = x - 5"
      using len fixed by (simp add: k_def)
    have v: "round6 a = of_nat (digits_value (take k ds @ drop k ds))
                          * pow10 (read_exponent [] - int (length (drop k ds)))"
      unfolding digits_value_take_drop dv read_exponent_Nil l val ..
    show ?thesis
      unfolding f
      by (rule std_stod_with_point [OF i all_digits_take_drop [OF dig, THEN conjunct1]
            all_digits_take_drop [OF dig, THEN conjunct2] r v assms(2,3)])
  next
    case small
    define k where "k = nat (- x - 1)"
    define fp where "fp = replicate k (CHR ''0'') @ ds"
    have f: "put_magnitude a = with_point ''0'' fp @ []"
      using small by (simp add: fmt ds_def k_def fp_def)
    have i: "''0'' \<noteq> []"
      by simp
    have z: "all_digits (replicate k (CHR ''0''))"
      by (simp add: all_digits_def isdigit_def)
    have d: "all_digits fp"
      using z dig by (simp add: fp_def)
    have r: "([]::string) = [] \<or> hd ([]::string) = CHR ''e''"
      by simp
    have l: "0 - int (length fp) = x - 5"
      using len small by (simp add: k_def fp_def)
    have "''0'' @ fp = replicate (Suc k) (CHR ''0'') @ ds"
      by (simp add: fp_def)
    then have dz: "digits_value (''0'' @ fp) = m"
      using digits_value_append [of "replicate (Suc k) (CHR ''0'')" ds]
      by (simp only: digits_value_zeros dv mult_zero_left add_0)
    have v: "round6 a = of_nat (digits_value (''0'' @ fp))
                          * pow10 (read_exponent [] - int (length fp))"
      unfolding dz read_exponent_Nil l val ..
    show ?thesis
      unfolding f
      by (rule std_stod_with_point [OF i all_digits_zero d r v assms(2,3)])
  qed
qed

lemma round6_positive:
  assumes "0 < a"
  shows "0 < round6 a"
proof -
  have "0 < round_half_even (a * pow10 (5 - dec_exponent a))"
    using six_digit_mantissa(1) [OF assms] by linarith
  then show ?thesis
    unfolding round6_def using pow10_pos [of "dec_exponent a - 5"] by simp
qed

lemma std_stod_std_put_double:
  assumes "prints_in_range x"
  shows "std_stod (std_put_double x) = Inr (six_digits x)"
proof (cases x)
  case (Fin r)
  consider (zero) "r = 0" | (neg) "r < 0" | (pos) "0 < r"
    by linarith
  then show ?thesis
  proof cases
    case zero
    then show ?thesis
      by (simp add: Fin std_put_double.simps stod_eval)
  next
    case neg
    then have a: "0 < - r" and b: "\<bar>r\<bar> = - r"
      by simp_all
    have rng: "DBL_MIN \<le> round6 (- r)" "round6 (- r) \<le> DBL_MAX"
      using assms neg by (simp_all add: Fin b)
    have "std_stod ((if True then ''-'' else []) @ put_magnitude (- r)) =
            Inr (Fin (if True then - round6 (- r) else round6 (- r)))"
      by (rule std_stod_put_magnitude [OF a rng])
    then show ?thesis
      using neg by (simp add: Fin std_put_double.simps)
  next
    case pos
    then have b: "\<bar>r\<bar> = r"
      by simp
    have rng: "DBL_MIN \<le> round6 r" "round6 r \<le> DBL_MAX"
      using assms pos by (simp_all add: Fin b)
    have "std_stod ((if False then ''-'' else []) @ put_magnitude r) =
            Inr (Fin (if False then - round6 r else round6 r))"
      by (rule std_stod_put_magnitude [OF pos rng])
    then show ?thesis
      using pos by (simp add: Fin std_put_double.simps)
  qed
next
  case PInf
  then show ?thesis by (simp add: std_put_double.simps stod_eval)
next
  case NInf
  then show ?thesis by (simp add: std_put_double.simps stod_eval)
next
  case NaN
  then show ?thesis by (simp add: std_put_double.simps stod_eval)
qed

subsection \<open>What the six digits keep\<close>

text \<open>
  The six digits differ from the number by at most half a unit of the sixth digit, and not
  at all when the number has no more than six significant digits.
\<close>

lemma round_half_even_error: "\<bar>of_int (round_half_even t) - t\<bar> \<le> 1 / 2"
proof -
  define d where "d = t - of_int \<lfloor>t\<rfloor>"
  have d: "0 \<le> d" "d < 1"
    unfolding d_def by linarith+
  have t: "t = of_int \<lfloor>t\<rfloor> + d"
    by (simp add: d_def)
  show ?thesis
  proof (cases "d > 1 / 2 \<or> (d = 1 / 2 \<and> odd \<lfloor>t\<rfloor>)")
    case True
    then have "round_half_even t = \<lfloor>t\<rfloor> + 1"
      by (simp add: round_half_even_def Let_def d_def)
    then have "of_int (round_half_even t) - t = 1 - d"
      by (simp add: d_def)
    then show ?thesis
      using True d by auto
  next
    case False
    then have "round_half_even t = \<lfloor>t\<rfloor>"
      by (simp add: round_half_even_def Let_def d_def)
    then have "of_int (round_half_even t) - t = - d"
      by (simp add: d_def)
    then show ?thesis
      using False d by auto
  qed
qed

lemma round_half_even_of_int: "round_half_even (of_int n) = n"
  by (simp add: round_half_even_def)

lemma scaled_back: "a * pow10 (5 - dec_exponent a) * pow10 (dec_exponent a - 5) = a"
proof -
  have "pow10 (5 - dec_exponent a) * pow10 (dec_exponent a - 5) = pow10 0"
    using pow10_add [of "5 - dec_exponent a" "dec_exponent a - 5"] by simp
  then show ?thesis
    by (simp add: pow10_def mult.assoc)
qed

lemma round6_error: "\<bar>round6 a - a\<bar> \<le> pow10 (dec_exponent a - 5) / 2"
proof -
  define t where "t = a * pow10 (5 - dec_exponent a)"
  define p where "p = pow10 (dec_exponent a - 5)"
  have p: "0 < p"
    unfolding p_def by (rule pow10_pos)
  have a: "a = t * p"
    unfolding t_def p_def by (rule scaled_back [symmetric])
  have "round6 a - a = (of_int (round_half_even t) - t) * p"
    unfolding round6_def t_def [symmetric] p_def [symmetric] using a
    by (simp add: algebra_simps)
  then have "\<bar>round6 a - a\<bar> = \<bar>of_int (round_half_even t) - t\<bar> * p"
    using p by (simp add: abs_mult)
  also have "\<dots> \<le> (1 / 2) * p"
    using round_half_even_error [of t] p by (simp only: mult_le_cancel_right_pos)
  finally show ?thesis
    by (simp add: p_def)
qed

lemma round6_exact:
  assumes "a * pow10 (5 - dec_exponent a) = of_int n"
  shows "round6 a = a"
proof -
  have "round6 a = a * pow10 (5 - dec_exponent a) * pow10 (dec_exponent a - 5)"
    unfolding round6_def assms round_half_even_of_int ..
  then show ?thesis
    by (simp only: scaled_back)
qed

subsection \<open>No separator in a printed number\<close>

lemma no_separator_append: "no_separator (xs @ ys) \<longleftrightarrow> no_separator xs \<and> no_separator ys"
  by (auto simp: no_separator_def)

lemma no_separator_Cons:
  "no_separator (c # cs) \<longleftrightarrow> c \<noteq> CHR ''|'' \<and> c \<noteq> CHR 0x0A \<and> no_separator cs"
  by (auto simp: no_separator_def)

lemma no_separator_Nil: "no_separator []"
  by (simp add: no_separator_def)

lemma no_separator_digits:
  assumes "all_digits ds"
  shows "no_separator ds"
proof -
  have "c \<noteq> CHR ''|'' \<and> c \<noteq> CHR 0x0A" if "c \<in> set ds" for c
    using that assms digit_char_facts(10,11) [of c] by (simp add: all_digits_def)
  then show ?thesis
    unfolding no_separator_def by blast
qed

lemma no_separator_with_point:
  assumes "all_digits ip" and "all_digits fp"
  shows "no_separator (with_point ip fp)"
proof -
  show ?thesis
    using no_separator_digits [OF assms(1)]
      no_separator_digits [OF all_digits_strip_zeros [OF assms(2)]]
    by (simp add: with_point_def no_separator_append no_separator_Cons)
qed

lemma no_separator_put_magnitude: "no_separator (put_magnitude a)"
proof -
  define x0 where "x0 = dec_exponent a"
  define m0 where "m0 = nat (round_half_even (a * pow10 (5 - x0)))"
  define m where "m = (if m0 \<ge> 1000000 then m0 div 10 else m0)"
  define x where "x = (if m0 \<ge> 1000000 then x0 + 1 else x0)"
  define sci where "sci = with_point (take 1 (put_nat m)) (drop 1 (put_nat m)) @ ''e''
                 @ (if x < 0 then ''-'' else ''+'') @ (if \<bar>x\<bar> < 10 then ''0'' else [])
                 @ put_nat (nat \<bar>x\<bar>)"
  define fixed where
    "fixed = with_point (take (nat x + 1) (put_nat m)) (drop (nat x + 1) (put_nat m))"
  define small where
    "small = with_point ''0'' (replicate (nat (- x - 1)) (CHR ''0'') @ put_nat m)"
  have fmt: "put_magnitude a = (if x < - 4 \<or> x \<ge> 6 then sci else if x \<ge> 0 then fixed else small)"
    unfolding put_magnitude_def Let_def sci_def fixed_def small_def m_def x_def m0_def x0_def
    by (rule refl)
  have t: "all_digits (take n (put_nat m))" and d: "all_digits (drop n (put_nat m))" for n
    using all_digits_take_drop [OF all_digits_put_nat, of n m] by simp_all
  have "all_digits (replicate k (CHR ''0''))" for k
    by (simp add: all_digits_def isdigit_def)
  then have z: "all_digits (replicate k (CHR ''0'') @ put_nat m)" for k
    by (simp add: all_digits_put_nat)
  have e: "no_separator (''e'' @ (if x < 0 then ''-'' else ''+'')
             @ (if \<bar>x\<bar> < 10 then ''0'' else []) @ put_nat (nat \<bar>x\<bar>))"
    by (simp add: no_separator_append no_separator_Cons no_separator_Nil put_nat_no_separator)
  have 1: "no_separator sci"
    unfolding sci_def using no_separator_with_point [OF t d, of 1 1] e
    by (simp only: no_separator_append simp_thms)
  have 2: "no_separator fixed"
    unfolding fixed_def by (rule no_separator_with_point [OF t d])
  have 3: "no_separator small"
    unfolding small_def by (rule no_separator_with_point [OF all_digits_zero z])
  show ?thesis
    unfolding fmt using 1 2 3 by simp
qed

lemma no_separator_std_put_double: "no_separator (std_put_double x)"
proof (cases x)
  case (Fin r)
  have "no_separator (CHR ''-'' # put_magnitude (- r))"
    using no_separator_put_magnitude [of "- r"] by (simp add: no_separator_def)
  then show ?thesis
    using no_separator_put_magnitude [of r]
    by (simp add: Fin std_put_double.simps) (simp add: no_separator_def)
qed (simp_all add: std_put_double.simps no_separator_def)

subsection \<open>Reading a printed integer\<close>

lemma std_stoi_put_int:
  assumes "- 2147483648 \<le> i" and "i \<le> 2147483647"
  shows "std_stoi (put_int i) = Inr i"
proof -
  define n where "n = nat \<bar>i\<bar>"
  define ds where "ds = put_nat n"
  obtain d ds' where ds: "ds = d # ds'"
    using put_nat_nonempty [of n] by (cases ds) (simp_all add: ds_def)
  have dig: "all_digits ds"
    unfolding ds_def by (rule all_digits_put_nat)
  then have d: "isdigit d"
    by (simp add: ds all_digits_def)
  have tw: "takeWhile isdigit ds = ds"
    using takeWhile_digits [OF dig, of "[]"] by simp
  have dv: "digits_value ds = n"
    unfolding ds_def by (rule digits_value_put_nat)
  have ne: "ds \<noteq> []"
    by (simp add: ds)
  show ?thesis
  proof (cases "i < 0")
    case True
    then have p: "put_int i = CHR ''-'' # ds"
      by (simp add: put_int_def ds_def n_def)
    have "\<not> isspace (CHR ''-'')"
      by (simp add: isspace_def)
    then have s1: "dropWhile isspace (CHR ''-'' # ds) = CHR ''-'' # ds"
      by simp
    have s2: "read_sign (CHR ''-'' # ds) = (True, ds)"
      by (simp add: read_sign_def)
    have v: "- int n = i"
      using True by (simp add: n_def)
    show ?thesis
      unfolding p std_stoi_def s1 s2 using assms
      by (simp add: Let_def tw dv ne v)
  next
    case False
    then have p: "put_int i = ds"
      by (simp add: put_int_def ds_def n_def)
    have s1: "dropWhile isspace ds = ds"
      using digit_char_facts(1) [OF d] by (simp add: ds)
    have s2: "read_sign ds = (False, ds)"
      using digit_char_facts(2,3) [OF d] by (simp add: ds read_sign_def)
    have v: "int n = i"
      using False by (simp add: n_def)
    show ?thesis
      unfolding p std_stoi_def s1 s2 using assms
      by (simp add: Let_def tw dv ne v)
  qed
qed

lemma std_stoi_flags: "std_stoi ''1'' = Inr 1" "std_stoi ''0'' = Inr 0"
  by (simp_all add: stoi_eval)

subsection \<open>A record through the file\<close>

lemma load_line_score_line:
  assumes "writable r"
  shows "load_line std_stod std_stoi (score_line std_put_double r) = Inr (Some (reread r))"
proof -
  have n: "CHR ''|'' \<notin> set (name r)" and d: "CHR ''|'' \<notin> set (date r)"
    using assms by (simp_all add: writable_def no_separator_def)
  have w: "CHR ''|'' \<notin> set (std_put_double (wpm r))"
    and a: "CHR ''|'' \<notin> set (std_put_double (accuracy r))"
    and t: "CHR ''|'' \<notin> set (std_put_double (time r))"
    using no_separator_std_put_double by (simp_all add: no_separator_def)
  have c: "CHR ''|'' \<notin> set (put_int (wordCount r))"
    and p: "CHR ''|'' \<notin> set (put_int (if hasPunctuation r then 1 else 0))"
    using put_int_no_separator by (simp_all add: no_separator_def)
  have l: "length (name r @ ''|'' @ std_put_double (wpm r) @ ''|''
             @ std_put_double (accuracy r) @ ''|'' @ std_put_double (time r)
             @ ''|'' @ date r @ ''|'' @ put_int (wordCount r) @ ''|''
             @ put_int (if hasPunctuation r then 1 else 0) @ ''|''
             @ put_int (if hasNumbers r then 1 else 0)) < npos"
    using assms by (simp add: writable_def score_line_def)
  have rng: "prints_in_range (wpm r)" "prints_in_range (accuracy r)" "prints_in_range (time r)"
    using assms by (simp_all add: writable_def)
  have reads: "std_stod (std_put_double (wpm r)) = Inr (six_digits (wpm r))"
    "std_stod (std_put_double (accuracy r)) = Inr (six_digits (accuracy r))"
    "std_stod (std_put_double (time r)) = Inr (six_digits (time r))"
    by (rule std_stod_std_put_double [OF rng(1)], rule std_stod_std_put_double [OF rng(2)],
        rule std_stod_std_put_double [OF rng(3)])
  have cnt: "std_stoi (put_int (wordCount r)) = Inr (wordCount r)"
    using assms by (intro std_stoi_put_int) (simp_all add: writable_def)
  have up: "toUpperCase (name r) = name r"
    using assms by (simp add: writable_def)
  have "load_line std_stod std_stoi (score_line std_put_double r) =
          Inr (Some \<lparr>name = name r, wpm = six_digits (wpm r),
                    accuracy = six_digits (accuracy r), time = six_digits (time r),
                    date = date r, wordCount = wordCount r,
                    hasPunctuation = hasPunctuation r, hasNumbers = hasNumbers r\<rparr>)"
    unfolding score_line_def
    by (subst load_line_eight_fields [OF n w a t d c p l])
       (simp add: reads cnt std_stoi_flags up put_int_flag)
  then show ?thesis
    by (cases r) (simp add: reread_def)
qed

lemma score_line_no_newline:
  assumes "writable r"
  shows "CHR 0x0A \<notin> set (score_line std_put_double r)"
  using assms put_int_no_separator [of "wordCount r"]
    no_separator_std_put_double [of "wpm r"] no_separator_std_put_double [of "accuracy r"]
    no_separator_std_put_double [of "time r"]
  by (simp add: writable_def no_separator_def score_line_def put_int_flag)

lemma reread_unchanged:
  assumes "six_digits (wpm r) = wpm r" and "six_digits (accuracy r) = accuracy r"
    and "six_digits (time r) = time r"
  shows "reread r = r"
  using assms by (simp add: reread_def)

text \<open>
  Claim C7, amended. For every board whose records are writable (an upper-case name, no
  separator or line break in the name or the date, numbers that print within the range of a
  \<open>double\<close>), loading what \<open>saveLeaderboard\<close> wrote, with the conversions of the standard
  library, gives the records in the same order, each with its name, date, word count and
  flags as saved and with its WPM, accuracy and time rounded to six significant decimal
  digits; a number of at most six significant digits comes back as it was.
\<close>

theorem save_load_keeps_six_digits:
  assumes "\<forall>r\<in>set leaderboard. writable r"
  shows "loadLeaderboard std_stod std_stoi (Some (saveLeaderboard std_put_double leaderboard))
           = Inr (map reread leaderboard)"
proof -
  have "load_lines std_stod std_stoi (getlines (saveLeaderboard std_put_double leaderboard))
          = Inr (map reread leaderboard)"
    using assms
  proof (induction leaderboard)
    case Nil
    then show ?case by (simp add: saveLeaderboard_def getlines_def)
  next
    case (Cons r leaderboard)
    have s: "writable r" using Cons.prems by simp
    have "saveLeaderboard std_put_double (r # leaderboard)
            = score_line std_put_double r @ CHR 0x0A # saveLeaderboard std_put_double leaderboard"
      by (simp add: saveLeaderboard_def)
    then have "getlines (saveLeaderboard std_put_double (r # leaderboard))
                 = score_line std_put_double r
                   # getlines (saveLeaderboard std_put_double leaderboard)"
      using getlines_line [OF score_line_no_newline [OF s]] by simp
    then show ?case
      using Cons load_line_score_line [OF s] by simp
  qed
  then show ?thesis by (simp add: loadLeaderboard_def)
qed

lemma example_prints:
  "std_put_double (Fin 90) = ''90''" "std_put_double (Fin 99) = ''99''"
  "std_put_double (Fin 60) = ''60''" "std_put_double (Fin (125 / 2)) = ''62.5''"
  "std_put_double (Fin 97) = ''97''" "std_put_double (Fin 100) = ''100''"
  "std_put_double (Fin (528 / 7)) = ''75.4286''"
  by (simp_all add: put_eval)

lemma example_reads:
  "std_stod ''90'' = Inr (Fin 90)" "std_stod ''99'' = Inr (Fin 99)"
  "std_stod ''60'' = Inr (Fin 60)" "std_stod ''62.5'' = Inr (Fin (125 / 2))"
  "std_stod ''97'' = Inr (Fin 97)" "std_stod ''100'' = Inr (Fin 100)"
  "std_stod ''75.4286'' = Inr (Fin (377143 / 5000))"
  by (simp_all add: stod_eval)

lemma example_ints:
  "put_int 25 = ''25''" "put_int 1 = ''1''" "put_int 0 = ''0''"
  "std_stoi ''25'' = Inr 25" "std_stoi ''1'' = Inr 1" "std_stoi ''0'' = Inr 0"
  by (simp_all add: put_int_def put_nat.simps char_of_eq_iff stoi_eval)

lemma example_round6:
  "round6 (528 / 7) = 377143 / 5000" "round6 (125 / 2) = 125 / 2"
  "round6 100 = 100" "round6 97 = 97" "round6 60 = 60"
  by (simp_all add: round6_def put_eval)

lemma example_writable:
  "writable (example_score ''ANA'' (528 / 7) 100)"
  "writable (example_score ''KAI'' (125 / 2) 97)"
  by (simp_all add: writable_def example_score_def no_separator_def toUpperCase_def toupper_def
      example_round6 DBL_MIN_def DBL_MAX_def example_prints example_ints score_line_def
      npos_def)

text \<open>
  The theorem on a board of two records: the first has the WPM \<open>528 / 7\<close> of 44 correct
  characters in 7 seconds, which comes back as \<open>75.4286\<close>; the numbers of the second have
  at most six digits and come back as they were.
\<close>

theorem save_load_keeps_six_digits_witness:
  "writable (example_score ''ANA'' (528 / 7) 100)
   \<and> writable (example_score ''KAI'' (125 / 2) 97)
   \<and> saveLeaderboard std_put_double
        [example_score ''ANA'' (528 / 7) 100, example_score ''KAI'' (125 / 2) 97]
      = ''ANA|75.4286|100|60|10/30/2026 12:00|25|1|0'' @ [CHR 0x0A]
        @ ''KAI|62.5|97|60|10/30/2026 12:00|25|1|0'' @ [CHR 0x0A]
   \<and> loadLeaderboard std_stod std_stoi
        (Some (saveLeaderboard std_put_double
           [example_score ''ANA'' (528 / 7) 100, example_score ''KAI'' (125 / 2) 97]))
      = Inr [example_score ''ANA'' (377143 / 5000) 100, example_score ''KAI'' (125 / 2) 97]"
proof -
  have h: "\<forall>r\<in>set [example_score ''ANA'' (528 / 7) 100, example_score ''KAI'' (125 / 2) 97].
       writable r"
    by (simp add: example_writable)
  have s: "saveLeaderboard std_put_double
        [example_score ''ANA'' (528 / 7) 100, example_score ''KAI'' (125 / 2) 97]
      = ''ANA|75.4286|100|60|10/30/2026 12:00|25|1|0'' @ [CHR 0x0A]
        @ ''KAI|62.5|97|60|10/30/2026 12:00|25|1|0'' @ [CHR 0x0A]"
    by (simp add: saveLeaderboard_def score_line_def example_score_def example_prints
        example_ints)
  have m: "map reread [example_score ''ANA'' (528 / 7) 100, example_score ''KAI'' (125 / 2) 97]
             = [example_score ''ANA'' (377143 / 5000) 100, example_score ''KAI'' (125 / 2) 97]"
    by (simp add: reread_def example_score_def example_round6)
  from save_load_keeps_six_digits [OF h] example_writable s m show ?thesis
    by (simp only: simp_thms)
qed

text \<open>
  Claim C7 as stated, for every board: the output format keeps six significant digits. A
  session of 44 correct characters in 7 seconds has the WPM \<open>528 / 7 = 75.428571...\<close>; it is
  written as \<open>75.4286\<close> and loaded as that number, not as the one saved.
\<close>

theorem save_load_precision_counterexample:
  "loadLeaderboard std_stod std_stoi
     (Some (saveLeaderboard std_put_double [example_score ''ANA'' (528 / 7) 100]))
   = Inr [example_score ''ANA'' (377143 / 5000) 100]
   \<and> loadLeaderboard std_stod std_stoi
       (Some (saveLeaderboard std_put_double [example_score ''ANA'' (528 / 7) 100]))
     \<noteq> Inr [example_score ''ANA'' (528 / 7) 100]"
proof -
  have s: "saveLeaderboard std_put_double [example_score ''ANA'' (528 / 7) 100]
             = ''ANA|75.4286|100|60|10/30/2026 12:00|25|1|0'' @ [CHR 0x0A]"
    by (simp add: saveLeaderboard_def score_line_def example_score_def example_prints
        example_ints)
  have l: "load_line std_stod std_stoi ''ANA|75.4286|100|60|10/30/2026 12:00|25|1|0''
             = Inr (Some (example_score ''ANA'' (377143 / 5000) 100))"
    using load_line_eight_fields [of "''ANA''" "''75.4286''" "''100''" "''60''"
        "''10/30/2026 12:00''" "''25''" "''1''" "''0''" std_stod std_stoi]
    by (simp add: npos_def example_reads example_ints example_score_def toUpperCase_def
        toupper_def)
  have "loadLeaderboard std_stod std_stoi
     (Some (saveLeaderboard std_put_double [example_score ''ANA'' (528 / 7) 100]))
   = Inr [example_score ''ANA'' (377143 / 5000) 100]"
    unfolding s by (simp add: loadLeaderboard_def getlines_def l)
  then show ?thesis
    by (simp add: example_score_def)
qed

text \<open>
  The conditions on the name are needed as well. The loader makes every name upper-case, and
  a separator in a name (the name prompt accepts it) moves the fields of the line by one
  place, so that \<open>std::stod\<close> is given a piece of the name and the load ends with its
  exception.
\<close>

lemma name_conditions_needed:
  "loadLeaderboard std_stod std_stoi
     (Some (saveLeaderboard std_put_double [example_score ''ana'' 90 99]))
   = Inr [example_score ''ANA'' 90 99]"
  "loadLeaderboard std_stod std_stoi
     (Some (saveLeaderboard std_put_double [example_score ''A|B'' 90 99]))
   = Inl invalid_argument"
proof -
  have s1: "saveLeaderboard std_put_double [example_score ''ana'' 90 99]
              = ''ana|90|99|60|10/30/2026 12:00|25|1|0'' @ [CHR 0x0A]"
    and s2: "saveLeaderboard std_put_double [example_score ''A|B'' 90 99]
              = ''A|B|90|99|60|10/30/2026 12:00|25|1|0'' @ [CHR 0x0A]"
    by (simp_all add: saveLeaderboard_def score_line_def example_score_def example_prints
        example_ints)
  have l1: "load_line std_stod std_stoi ''ana|90|99|60|10/30/2026 12:00|25|1|0''
              = Inr (Some (example_score ''ANA'' 90 99))"
    using load_line_eight_fields [of "''ana''" "''90''" "''99''" "''60''"
        "''10/30/2026 12:00''" "''25''" "''1''" "''0''" std_stod std_stoi]
    by (simp add: npos_def example_reads example_ints example_score_def toUpperCase_def
        toupper_def char_of_eq_iff)
  have "std_stod ''B'' = Inl invalid_argument"
    by (simp add: stod_eval)
  then have l2: "load_line std_stod std_stoi ''A|B|90|99|60|10/30/2026 12:00|25|1|0''
              = Inl invalid_argument"
    using load_line_eight_fields [of "''A''" "''B''" "''90''" "''99''" "''60''"
        "''10/30/2026 12:00''" "''25''" "''1|0''" std_stod std_stoi]
    by (simp add: npos_def)
  show "loadLeaderboard std_stod std_stoi
     (Some (saveLeaderboard std_put_double [example_score ''ana'' 90 99]))
   = Inr [example_score ''ANA'' 90 99]"
    unfolding s1 by (simp add: loadLeaderboard_def getlines_def l1)
  show "loadLeaderboard std_stod std_stoi
     (Some (saveLeaderboard std_put_double [example_score ''A|B'' 90 99]))
   = Inl invalid_argument"
    unfolding s2 by (simp add: loadLeaderboard_def getlines_def l2)
qed

end
